theory Spec2Isabelle
  imports Main "HOL-Library.Multiset"
begin

section \<open>gcs\_enhancer: filename stamping, link formatting, preparation and batch upload\<close>

text \<open>
  The development follows \<^verbatim>\<open>gcs_enhancer.go\<close>. Go strings are byte sequences and are
  modelled as \<^typ>\<open>string\<close>; Go \<^verbatim>\<open>error\<close> values are opaque and modelled by a datatype
  that carries their message.
\<close>

datatype error = Error string

type_synonym bytes = "char list"

subsection \<open>Library functions used by the source\<close>

text \<open>
  \<^verbatim>\<open>strings.Split(s, ".")\<close>: the substrings between the dots, in order. The result is
  never empty: a string without a dot gives the one-element list holding the string.
\<close>

fun Split_dot :: "string \<Rightarrow> string list" where
  "Split_dot [] = [[]]"
| "Split_dot (c # cs) =
     (if c = CHR ''.'' then [] # Split_dot cs
      else (case Split_dot cs of
              [] \<Rightarrow> [[c]]
            | seg # segs \<Rightarrow> (c # seg) # segs))"

text \<open>
  \<^verbatim>\<open>time.Now()\<close> is an input of the program. A time value is kept by its calendar fields;
  \<^verbatim>\<open>Format("20060102150405")\<close> prints the year zero-padded to four digits and month, day,
  hour, minute and second zero-padded to two (Go's \<^verbatim>\<open>appendInt\<close>).
\<close>

record time =
  Year :: nat
  Month :: nat
  Day :: nat
  Hour :: nat
  Minute :: nat
  Second :: nat

definition digit :: "nat \<Rightarrow> char" where
  "digit d = char_of (48 + d)"

fun decimal :: "nat \<Rightarrow> string" where
  "decimal n = (if n < 10 then [digit n] else decimal (n div 10) @ [digit (n mod 10)])"

declare decimal.simps [simp del]

definition appendInt :: "nat \<Rightarrow> nat \<Rightarrow> string" where
  "appendInt x width = replicate (width - length (decimal x)) (CHR ''0'') @ decimal x"

definition Format_20060102150405 :: "time \<Rightarrow> string" where
  "Format_20060102150405 t =
     appendInt (Year t) 4 @ appendInt (Month t) 2 @ appendInt (Day t) 2 @
     appendInt (Hour t) 2 @ appendInt (Minute t) 2 @ appendInt (Second t) 2"

text \<open>
  \<^verbatim>\<open>filepath.Base\<close> (Unix separators): the last element of the path, after trailing
  slashes are removed; \<^verbatim>\<open>"."\<close> for the empty path and \<^verbatim>\<open>"/"\<close> for a path of slashes only.
\<close>

definition filepath_Base :: "string \<Rightarrow> string" where
  "filepath_Base path =
     (if path = [] then ''.''
      else (let p = rev (dropWhile (\<lambda>c. c = CHR ''/'') (rev path))
            in if p = [] then ''/''
               else rev (takeWhile (\<lambda>c. c \<noteq> CHR ''/'') (rev p))))"

subsection \<open>Filename stamping\<close>

text \<open>
  \<^verbatim>\<open>AppendUnixTimeStampToFilename\<close> (lines 91-96). The value of \<^verbatim>\<open>time.Now()\<close> read by the
  call is its first argument. \<^verbatim>\<open>secs[0]\<close> and \<^verbatim>\<open>secs[len(secs)-1]\<close> are in range because
  \<^verbatim>\<open>strings.Split\<close> never returns an empty slice (lemma \<open>Split_dot_nonempty\<close>).
\<close>

definition AppendUnixTimeStampToFilename :: "time \<Rightarrow> string \<Rightarrow> string" where
  "AppendUnixTimeStampToFilename now filename =
     (let secs = Split_dot filename;
          timeFactor = Format_20060102150405 now
      in hd secs @ ''_'' @ timeFactor @ ''.'' @ last secs)"

text \<open>\<^verbatim>\<open>appendThumbnailStamp\<close> (lines 98-102).\<close>

definition appendThumbnailStamp :: "string \<Rightarrow> string" where
  "appendThumbnailStamp filename =
     (let secs = Split_dot filename
      in hd secs @ ''_thumbnail.'' @ last secs)"



subsection \<open>Data\<close>

text \<open>
  \<^verbatim>\<open>ImageSize\<close> is a string type with two named constants (lines 218-223).
\<close>

type_synonym ImageSize = string

definition Original :: ImageSize where
  "Original = ''original''"

definition Thumbnail :: ImageSize where
  "Thumbnail = ''thumbnail''"

text \<open>
  \<^verbatim>\<open>Images\<close> (lines 104-109) and \<^verbatim>\<open>ObjectInfo\<close> (lines 225-229). The image type is a parameter;
  the reader of an \<^verbatim>\<open>ObjectInfo\<close> is the buffer's content. The fields \<^verbatim>\<open>Images.Name\<close> and
  \<^verbatim>\<open>Images.Thumbnail\<close> are written \<open>ImagesName\<close> and \<open>ImagesThumbnail\<close>, since record fields
  share one name space with the constants above.
\<close>

record 'img Images =
  ImagesName :: string
  Mime :: string
  OrigImage :: 'img
  ImagesThumbnail :: 'img

record ObjectInfo =
  Size :: ImageSize
  Name :: string
  Reader :: bytes

text \<open>
  \<^verbatim>\<open>SortedLinks\<close> (lines 231-234); its field \<^verbatim>\<open>Original\<close> is written \<open>Originals\<close>, after its
  JSON name. \<^verbatim>\<open>LinkInfo\<close> is local to \<^verbatim>\<open>uploadMultiple\<close> (lines 240-243); its field \<^verbatim>\<open>Size\<close>
  is written \<open>LinkSize\<close>.
\<close>

record SortedLinks =
  Thumbnails :: "string list"
  Originals :: "string list"

record LinkInfo =
  LinkSize :: ImageSize
  Link :: string

subsection \<open>Link formatting\<close>

text \<open>
  \<^verbatim>\<open>ObjectLink\<close> (lines 42-50) fills the \<^verbatim>\<open>Scheme\<close>, \<^verbatim>\<open>Host\<close> and \<^verbatim>\<open>Path\<close> fields of a
  \<^verbatim>\<open>url.URL\<close> and returns \<^verbatim>\<open>u.String()\<close>. The library's \<^verbatim>\<open>String\<close> method is modelled for
  a URL whose other fields are zero, as here: it writes the scheme and \<^verbatim>\<open>":"\<close>, then
  \<^verbatim>\<open>"//"\<close> and the escaped host, then a \<^verbatim>\<open>"/"\<close> when the escaped path does not begin with
  one, then \<^verbatim>\<open>EscapedPath()\<close>. With an empty \<^verbatim>\<open>RawPath\<close>, \<^verbatim>\<open>EscapedPath\<close> percent-encodes
  every byte of the path for which \<^verbatim>\<open>shouldEscape(c, encodePath)\<close> holds.
\<close>

datatype encoding = encodePath | encodeHost

definition shouldEscape :: "char \<Rightarrow> encoding \<Rightarrow> bool" where
  "shouldEscape c mode =
     (let n = (of_char c :: nat) in
      if (97 \<le> n \<and> n \<le> 122) \<or> (65 \<le> n \<and> n \<le> 90) \<or> (48 \<le> n \<and> n \<le> 57) then False
      else if mode = encodeHost \<and>
              c \<in> set [CHR ''!'', CHR ''$'', CHR ''&'', CHR 0x27, CHR ''('', CHR '')'', CHR ''*'',
                        CHR ''+'', CHR '','', CHR '';'', CHR ''='', CHR '':'', CHR ''['', CHR '']'',
                        CHR ''<'', CHR ''>'', CHR 0x22] then False
      else if c \<in> set [CHR ''-'', CHR ''_'', CHR ''.'', CHR ''~''] then False
      else if c \<in> set [CHR ''$'', CHR ''&'', CHR ''+'', CHR '','', CHR ''/'', CHR '':'', CHR '';'',
                        CHR ''='', CHR ''?'', CHR ''@''] then
             (case mode of encodePath \<Rightarrow> c = CHR ''?'' | encodeHost \<Rightarrow> True)
      else True)"

definition upperhex :: string where
  "upperhex = ''0123456789ABCDEF''"

definition escape_char :: "encoding \<Rightarrow> char \<Rightarrow> string" where
  "escape_char mode c =
     (if shouldEscape c mode
      then [CHR ''%'', upperhex ! ((of_char c :: nat) div 16), upperhex ! ((of_char c :: nat) mod 16)]
      else [c])"

definition escape :: "string \<Rightarrow> encoding \<Rightarrow> string" where
  "escape s mode = concat (map (escape_char mode) s)"

record URL =
  Scheme :: string
  Host :: string
  Path :: string

definition EscapedPath :: "URL \<Rightarrow> string" where
  "EscapedPath u = (if Path u = ''*'' then ''*'' else escape (Path u) encodePath)"

definition URL_String :: "URL \<Rightarrow> string" where
  "URL_String u =
     (let buf1 = (if Scheme u \<noteq> [] then Scheme u @ '':'' else []);
          buf2 = buf1 @
            (if Scheme u \<noteq> [] \<or> Host u \<noteq> []
             then (if Host u \<noteq> [] \<or> Path u \<noteq> [] then ''//'' else []) @
                  (if Host u \<noteq> [] then escape (Host u) encodeHost else [])
             else []);
          path = EscapedPath u;
          buf3 = buf2 @ (if path \<noteq> [] \<and> hd path \<noteq> CHR ''/'' \<and> Host u \<noteq> [] then ''/'' else []);
          buf4 = buf3 @
            (if buf3 = [] \<and> CHR '':'' \<in> set (takeWhile (\<lambda>c. c \<noteq> CHR ''/'') path)
             then ''./'' else [])
      in buf4 @ path)"

definition GCSPublicHost :: string where
  "GCSPublicHost = ''storage.googleapis.com''"

text \<open>The two fields of \<^verbatim>\<open>storage.ObjectAttrs\<close> that the source reads.\<close>

record ObjectAttrs =
  Bucket :: string
  AttrsName :: string

definition ObjectLink :: "ObjectAttrs \<Rightarrow> string" where
  "ObjectLink attr =
     URL_String \<lparr>Scheme = ''https'', Host = GCSPublicHost, Path = Bucket attr @ ''/'' @ AttrsName attr\<rparr>"

subsection \<open>Uploading one object\<close>

text \<open>
  The storage client is outside the program. Its answers are inputs: for the call made
  for task number \<open>j\<close>, whether copying the payload, closing the writer and setting the
  access policy fail, and the attributes read back. The outcome of \<^verbatim>\<open>json.Marshal\<close> on the
  result (line 297) is kept as an input as well.
\<close>

record externals =
  io_Copy :: "nat \<Rightarrow> string \<Rightarrow> bytes \<Rightarrow> error option"
  Writer_Close :: "nat \<Rightarrow> string \<Rightarrow> error option"
  ACL_Set :: "nat \<Rightarrow> string \<Rightarrow> error option"
  Object_Attrs :: "nat \<Rightarrow> string \<Rightarrow> error + ObjectAttrs"
  json_Marshal :: "SortedLinks \<Rightarrow> error option"

text \<open>\<^verbatim>\<open>Upload\<close> (lines 59-89): the first failing client call is returned.\<close>

definition Upload :: "externals \<Rightarrow> nat \<Rightarrow> bytes \<Rightarrow> string \<Rightarrow> error + string" where
  "Upload st j file uploadFilename =
     (case io_Copy st j uploadFilename file of
        Some err \<Rightarrow> Inl err
      | None \<Rightarrow>
         (case Writer_Close st j uploadFilename of
            Some err \<Rightarrow> Inl err
          | None \<Rightarrow>
             (case ACL_Set st j uploadFilename of
                Some err \<Rightarrow> Inl err
              | None \<Rightarrow>
                 (case Object_Attrs st j uploadFilename of
                    Inl err \<Rightarrow> Inl err
                  | Inr attr \<Rightarrow> Inr (ObjectLink attr)))))"

subsection \<open>Preparing the upload tasks\<close>

text \<open>
  The encoders of \<^verbatim>\<open>image/png\<close>, \<^verbatim>\<open>image/jpeg\<close> and \<^verbatim>\<open>image/gif\<close> are outside the program: each
  either fails or yields the bytes written to the buffer. The PNG encoder takes its
  compression level and the JPEG encoder its quality.
\<close>

record 'img encoders =
  png_Encode :: "int \<Rightarrow> 'img \<Rightarrow> error + bytes"
  jpeg_Encode :: "nat \<Rightarrow> 'img \<Rightarrow> error + bytes"
  gif_Encode :: "'img \<Rightarrow> error + bytes"

definition png_BestCompression :: int where
  "png_BestCompression = - 3"

definition jpeg_DefaultQuality :: nat where
  "jpeg_DefaultQuality = 75"

text \<open>
  The body of the loop of \<^verbatim>\<open>UploadImages\<close> (lines 120-205) for one image: \<open>t1\<close> and \<open>t2\<close> are
  the times read by the two calls of \<^verbatim>\<open>AppendUnixTimeStampToFilename\<close>. The result is the
  two pointers appended to \<^verbatim>\<open>ois\<close>; \<open>None\<close> is the nil pointer. The \<^verbatim>\<open>switch\<close> has no default
  case, so any other mime type leaves both pointers nil. In the \<^verbatim>\<open>image/gif\<close> case the
  second assignment is again to \<^verbatim>\<open>origObj\<close> (line 197) and \<^verbatim>\<open>thumbObj\<close> stays nil.
\<close>

definition prepare_image ::
  "'img encoders \<Rightarrow> time \<Rightarrow> time \<Rightarrow> 'img Images \<Rightarrow> error + ObjectInfo option list" where
  "prepare_image enc t1 t2 img =
     (let origName = AppendUnixTimeStampToFilename t1 (filepath_Base (ImagesName img));
          thumbnailName =
            AppendUnixTimeStampToFilename t2 (appendThumbnailStamp (filepath_Base (ImagesName img)))
      in if Mime img = ''image/png'' then
           (case png_Encode enc png_BestCompression (OrigImage img) of
              Inl err \<Rightarrow> Inl err
            | Inr origBuf \<Rightarrow>
               (case png_Encode enc png_BestCompression (ImagesThumbnail img) of
                  Inl err \<Rightarrow> Inl err
                | Inr thumbBuf \<Rightarrow>
                    Inr [Some \<lparr>Size = Original, Name = origName, Reader = origBuf\<rparr>,
                         Some \<lparr>Size = Thumbnail, Name = thumbnailName, Reader = thumbBuf\<rparr>]))
         else if Mime img = ''image/jpeg'' then
           (case jpeg_Encode enc jpeg_DefaultQuality (OrigImage img) of
              Inl err \<Rightarrow> Inl err
            | Inr origBuf \<Rightarrow>
               (case jpeg_Encode enc 40 (ImagesThumbnail img) of
                  Inl err \<Rightarrow> Inl err
                | Inr thumbBuf \<Rightarrow>
                    Inr [Some \<lparr>Size = Original, Name = origName, Reader = origBuf\<rparr>,
                         Some \<lparr>Size = Thumbnail, Name = thumbnailName, Reader = thumbBuf\<rparr>]))
         else if Mime img = ''image/gif'' then
           (case gif_Encode enc (OrigImage img) of
              Inl err \<Rightarrow> Inl err
            | Inr origBuf \<Rightarrow>
               (case gif_Encode enc (ImagesThumbnail img) of
                  Inl err \<Rightarrow> Inl err
                | Inr thumbBuf \<Rightarrow>
                    Inr [Some \<lparr>Size = Thumbnail, Name = origName, Reader = origBuf\<rparr>, None]))
         else Inr [None, None])"

text \<open>
  The loop (lines 113-207). \<open>now k\<close> is the time returned by call number \<open>k\<close> of
  \<^verbatim>\<open>time.Now()\<close>; each image makes two calls. An encoding error returns at once.
\<close>

fun prepare ::
  "'img encoders \<Rightarrow> (nat \<Rightarrow> time) \<Rightarrow> nat \<Rightarrow> 'img Images list \<Rightarrow> ObjectInfo option list
     \<Rightarrow> error + ObjectInfo option list" where
  "prepare enc now k [] ois = Inr ois"
| "prepare enc now k (img # imgs) ois =
     (case prepare_image enc (now k) (now (Suc k)) img of
        Inl err \<Rightarrow> Inl err
      | Inr objs \<Rightarrow> prepare enc now (Suc (Suc k)) imgs (ois @ objs))"

subsection \<open>The concurrent batch upload\<close>

text \<open>
  \<^verbatim>\<open>uploadMultiple\<close> (lines 236-306) starts one goroutine per task and then collects.
  It is modelled as an interleaving of atomic steps of the calling thread and of the
  goroutines over the three channels. Channel operations are Go's synchronisation
  points, so an interleaving of them is what an execution is.

  \<^item> \<^verbatim>\<open>quit\<close> is never sent on, only closed: its state is whether it is closed. A receive
    from it succeeds exactly when it is closed; closing it again panics.
  \<^item> \<^verbatim>\<open>errChan\<close> and \<^verbatim>\<open>linkChan\<close> have capacity 1: their state is the buffer; a send blocks
    while the buffer is full, a receive blocks while it is empty. Blocked senders may go
    on in any order, which includes the order in which Go wakes them.
  \<^item> \<open>panic\<close> holds the message of a panic. A panic ends the execution: no thread steps
    after it.
  \<^item> \<open>uploads\<close> lists the object names for which \<^verbatim>\<open>Upload\<close> has been called, in call order.
\<close>

text \<open>
  The program points of a goroutine (lines 254-275), each with the locals the goroutine
  holds there: before the call of \<^verbatim>\<open>Upload\<close>, which reads \<^verbatim>\<open>obj.Reader\<close> and \<^verbatim>\<open>obj.Name\<close>;
  before each channel operation; and its two exits, the \<^verbatim>\<open>return\<close> of line 266 and the end
  of the function.
\<close>

datatype gstate =
    GStart "ObjectInfo option"
  | GSendErr error
  | GCloseQuit error
  | GReturn error
  | GSendNil LinkInfo
  | GSendLink LinkInfo
  | GEnd LinkInfo

text \<open>
  The program points of the caller: the dispatch loop with the tasks still to range
  over (lines 249-277); the collection loop before the receive from \<^verbatim>\<open>errChan\<close>, with the
  number of completed iterations (line 280); before \<^verbatim>\<open>close(quit)\<close> with the error received
  (line 281); before the receive from \<^verbatim>\<open>linkChan\<close> (line 286); and after the return, with
  the two values returned.
\<close>

datatype mstate =
    MRange "ObjectInfo option list"
  | MRecvErr nat
  | MCloseQuit error
  | MRecvLink nat
  | MReturned SortedLinks "error option"

record state =
  quit :: bool
  errChan :: "error option list"
  linkChan :: "LinkInfo list"
  gos :: "gstate list"
  pc :: mstate
  sl :: SortedLinks
  panic :: "string option"
  uploads :: "string list"

datatype tid = Caller | Go nat

definition init :: "ObjectInfo option list \<Rightarrow> state" where
  "init objs =
     \<lparr>quit = False, errChan = [], linkChan = [], gos = [], pc = MRange objs,
      sl = \<lparr>Thumbnails = [], Originals = []\<rparr>, panic = None, uploads = []\<rparr>"

text \<open>Lines 288-294: the two tests on the size of a received link.\<close>

definition merge_link :: "LinkInfo \<Rightarrow> SortedLinks \<Rightarrow> SortedLinks" where
  "merge_link li s =
     (let s1 = (if LinkSize li = Original then s\<lparr>Originals := Originals s @ [Link li]\<rparr> else s)
      in if LinkSize li = Thumbnail then s1\<lparr>Thumbnails := Thumbnails s1 @ [Link li]\<rparr> else s1)"

text \<open>
  One step of the caller; \<open>n\<close> is \<^verbatim>\<open>len(objs)\<close>. \<open>None\<close> means that the caller is blocked on a
  receive or has returned. In the dispatch loop the \<^verbatim>\<open>select\<close> takes \<^verbatim>\<open>case <-quit\<close> when \<^verbatim>\<open>quit\<close>
  is closed and the \<^verbatim>\<open>default\<close> case, which starts the goroutine, otherwise.
\<close>

definition caller_step :: "externals \<Rightarrow> nat \<Rightarrow> state \<Rightarrow> state option" where
  "caller_step ex n s =
     (case pc s of
        MRange [] \<Rightarrow> Some (s\<lparr>pc := MRecvErr 0\<rparr>)
      | MRange (obj # rest) \<Rightarrow>
          if quit s then Some (s\<lparr>pc := MRecvErr 0\<rparr>)
          else Some (s\<lparr>gos := gos s @ [GStart obj], pc := MRange rest\<rparr>)
      | MRecvErr k \<Rightarrow>
          if k < n then
            (case errChan s of
               [] \<Rightarrow> None
             | Some err # buf \<Rightarrow> Some (s\<lparr>errChan := buf, pc := MCloseQuit err\<rparr>)
             | None # buf \<Rightarrow> Some (s\<lparr>errChan := buf, pc := MRecvLink k\<rparr>))
          else Some (s\<lparr>pc := MReturned (sl s) (json_Marshal ex (sl s))\<rparr>)
      | MCloseQuit err \<Rightarrow>
          if quit s then Some (s\<lparr>panic := Some ''close of closed channel''\<rparr>)
          else Some (s\<lparr>quit := True, pc := MReturned (sl s) (Some err)\<rparr>)
      | MRecvLink k \<Rightarrow>
          (case linkChan s of
             [] \<Rightarrow> None
           | li # buf \<Rightarrow>
               Some (s\<lparr>linkChan := buf, sl := merge_link li (sl s), pc := MRecvErr (Suc k)\<rparr>))
      | MReturned _ _ \<Rightarrow> None)"

text \<open>
  One step of goroutine \<open>j\<close>. The goroutine of a nil task panics when it reads
  \<^verbatim>\<open>obj.Reader\<close>. \<open>None\<close> means that the goroutine does not exist, is blocked on a send or has
  ended.
\<close>

definition go_step :: "externals \<Rightarrow> nat \<Rightarrow> state \<Rightarrow> state option" where
  "go_step ex j s =
     (if j < length (gos s) then
        (case gos s ! j of
           GStart None \<Rightarrow>
             Some (s\<lparr>panic := Some ''invalid memory address or nil pointer dereference''\<rparr>)
         | GStart (Some obj) \<Rightarrow>
             Some (s\<lparr>uploads := uploads s @ [Name obj],
                     gos := (gos s)[j :=
                       (case Upload ex j (Reader obj) (Name obj) of
                          Inl err \<Rightarrow> GSendErr err
                        | Inr objectLink \<Rightarrow> GSendNil \<lparr>LinkSize = Size obj, Link = objectLink\<rparr>)]\<rparr>)
         | GSendErr err \<Rightarrow>
             if length (errChan s) < 1
             then Some (s\<lparr>errChan := errChan s @ [Some err], gos := (gos s)[j := GCloseQuit err]\<rparr>)
             else None
         | GCloseQuit err \<Rightarrow>
             if quit s then Some (s\<lparr>panic := Some ''close of closed channel''\<rparr>)
             else Some (s\<lparr>quit := True, gos := (gos s)[j := GReturn err]\<rparr>)
         | GReturn err \<Rightarrow> None
         | GSendNil li \<Rightarrow>
             if length (errChan s) < 1
             then Some (s\<lparr>errChan := errChan s @ [None], gos := (gos s)[j := GSendLink li]\<rparr>)
             else None
         | GSendLink li \<Rightarrow>
             if length (linkChan s) < 1
             then Some (s\<lparr>linkChan := linkChan s @ [li], gos := (gos s)[j := GEnd li]\<rparr>)
             else None
         | GEnd li \<Rightarrow> None)
      else None)"

definition step :: "externals \<Rightarrow> nat \<Rightarrow> tid \<Rightarrow> state \<Rightarrow> state option" where
  "step ex n t s =
     (if panic s \<noteq> None then None
      else (case t of Caller \<Rightarrow> caller_step ex n s | Go j \<Rightarrow> go_step ex j s))"

text \<open>
  An execution follows a schedule, the list of the threads chosen to step. Choosing a
  thread that cannot step leaves the state as it is.
\<close>

fun run :: "externals \<Rightarrow> nat \<Rightarrow> tid list \<Rightarrow> state \<Rightarrow> state" where
  "run ex n [] s = s"
| "run ex n (t # ts) s =
     (case step ex n t s of
        None \<Rightarrow> run ex n ts s
      | Some s' \<Rightarrow> run ex n ts s')"

definition uploadMultiple :: "externals \<Rightarrow> ObjectInfo option list \<Rightarrow> tid list \<Rightarrow> state" where
  "uploadMultiple ex objs sched = run ex (length objs) sched (init objs)"

text \<open>
  \<^verbatim>\<open>UploadImages\<close> (lines 112-216): an encoding error returns the zero \<^verbatim>\<open>SortedLinks\<close> and the
  error before anything is started; otherwise the outcome is that of \<^verbatim>\<open>uploadMultiple\<close> on
  the prepared tasks.
\<close>

definition UploadImages ::
  "externals \<Rightarrow> 'img encoders \<Rightarrow> (nat \<Rightarrow> time) \<Rightarrow> 'img Images list \<Rightarrow> tid list \<Rightarrow> state" where
  "UploadImages ex enc now imgs sched =
     (case prepare enc now 0 imgs [] of
        Inl err \<Rightarrow> (init [])\<lparr>pc := MReturned \<lparr>Thumbnails = [], Originals = []\<rparr> (Some err)\<rparr>
      | Inr ois \<Rightarrow> uploadMultiple ex ois sched)"

subsection \<open>Outcomes of the tasks of a batch\<close>

text \<open>
  What the goroutine of task \<open>j\<close> reports once it has called \<^verbatim>\<open>Upload\<close>: the error, or the
  link tagged with the task's size. A nil task reports nothing.
\<close>

definition task_outcome :: "externals \<Rightarrow> nat \<Rightarrow> ObjectInfo option \<Rightarrow> (error + LinkInfo) option" where
  "task_outcome ex j obj =
     (case obj of
        None \<Rightarrow> None
      | Some a \<Rightarrow>
          Some (case Upload ex j (Reader a) (Name a) of
                  Inl err \<Rightarrow> Inl err
                | Inr objectLink \<Rightarrow> Inr \<lparr>LinkSize = Size a, Link = objectLink\<rparr>))"

definition outcomes :: "externals \<Rightarrow> ObjectInfo option list \<Rightarrow> (error + LinkInfo) option list" where
  "outcomes ex objs = map (\<lambda>(j, obj). task_outcome ex j obj) (enumerate 0 objs)"

definition all_succeed :: "externals \<Rightarrow> ObjectInfo option list \<Rightarrow> bool" where
  "all_succeed ex objs =
     list_all (\<lambda>r. case r of Some (Inr li) \<Rightarrow> True | _ \<Rightarrow> False) (outcomes ex objs)"

definition some_fails :: "externals \<Rightarrow> ObjectInfo option list \<Rightarrow> bool" where
  "some_fails ex objs =
     list_ex (\<lambda>r. case r of Some (Inl err) \<Rightarrow> True | _ \<Rightarrow> False) (outcomes ex objs)"

definition task_errors :: "externals \<Rightarrow> ObjectInfo option list \<Rightarrow> error list" where
  "task_errors ex objs =
     concat (map (\<lambda>r. case r of Some (Inl err) \<Rightarrow> [err] | _ \<Rightarrow> []) (outcomes ex objs))"

definition expected_links :: "externals \<Rightarrow> ObjectInfo option list \<Rightarrow> LinkInfo list" where
  "expected_links ex objs =
     concat (map (\<lambda>r. case r of Some (Inr li) \<Rightarrow> [li] | _ \<Rightarrow> []) (outcomes ex objs))"

definition links_of :: "ImageSize \<Rightarrow> LinkInfo list \<Rightarrow> string list" where
  "links_of z lis = map Link (filter (\<lambda>li. LinkSize li = z) lis)"

text \<open>Every non-nil task is tagged with one of the two named sizes.\<close>

definition sizes_ok :: "ObjectInfo option list \<Rightarrow> bool" where
  "sizes_ok objs =
     list_all (\<lambda>obj. case obj of None \<Rightarrow> True | Some a \<Rightarrow> Size a = Original \<or> Size a = Thumbnail) objs"

subsection \<open>The invariant of the batch upload\<close>

text \<open>
  The state of a goroutine agrees with its task: it still holds the task, or it holds the
  outcome of the task's upload.
\<close>

definition task_rel :: "ObjectInfo option \<times> (error + LinkInfo) option \<Rightarrow> gstate \<Rightarrow> bool" where
  "task_rel t g =
     (case g of
        GStart obj \<Rightarrow> obj = fst t
      | GSendErr err \<Rightarrow> snd t = Some (Inl err)
      | GCloseQuit err \<Rightarrow> snd t = Some (Inl err)
      | GReturn err \<Rightarrow> snd t = Some (Inl err)
      | GSendNil li \<Rightarrow> snd t = Some (Inr li)
      | GSendLink li \<Rightarrow> snd t = Some (Inr li)
      | GEnd li \<Rightarrow> snd t = Some (Inr li))"

definition tasks ::
  "externals \<Rightarrow> ObjectInfo option list \<Rightarrow> (ObjectInfo option \<times> (error + LinkInfo) option) list" where
  "tasks ex objs = zip objs (outcomes ex objs)"

text \<open>
  What a goroutine has sent so far: \<open>nil_sent\<close> holds one element when it has sent \<^verbatim>\<open>nil\<close> on
  \<^verbatim>\<open>errChan\<close>, \<open>link_sent\<close> holds the link it has sent on \<^verbatim>\<open>linkChan\<close>.
\<close>

definition nil_sent :: "gstate \<Rightarrow> unit list" where
  "nil_sent g = (case g of GSendLink li \<Rightarrow> [()] | GEnd li \<Rightarrow> [()] | _ \<Rightarrow> [])"

definition link_sent :: "gstate \<Rightarrow> LinkInfo list" where
  "link_sent g = (case g of GEnd li \<Rightarrow> [li] | _ \<Rightarrow> [])"

definition nils_in :: "error option list \<Rightarrow> unit list" where
  "nils_in buf = concat (map (\<lambda>m. case m of None \<Rightarrow> [()] | Some err \<Rightarrow> []) buf)"

definition valid_size :: "LinkInfo \<Rightarrow> bool" where
  "valid_size li \<longleftrightarrow> LinkSize li = Original \<or> LinkSize li = Thumbnail"

definition sl_links :: "SortedLinks \<Rightarrow> LinkInfo list" where
  "sl_links x =
     map (\<lambda>l. \<lparr>LinkSize = Original, Link = l\<rparr>) (Originals x) @
     map (\<lambda>l. \<lparr>LinkSize = Thumbnail, Link = l\<rparr>) (Thumbnails x)"

text \<open>
  The counts that tie the collector to the goroutines: \<open>a\<close> \<^verbatim>\<open>nil\<close>s and \<open>b\<close> links have been
  received, the others sent are still in the buffers, and the links received with a named
  size are the ones merged into the result.
\<close>

definition counts :: "state \<Rightarrow> nat \<Rightarrow> nat \<Rightarrow> bool" where
  "counts s a b \<longleftrightarrow>
     length (concat (map nil_sent (gos s))) = a + length (nils_in (errChan s)) \<and>
     length (concat (map link_sent (gos s))) = b + length (linkChan s) \<and>
     mset (sl_links (sl s)) + mset (filter valid_size (linkChan s)) =
       mset (filter valid_size (concat (map link_sent (gos s))))"

definition returned_ok :: "externals \<Rightarrow> ObjectInfo option list \<Rightarrow> SortedLinks \<Rightarrow> error option \<Rightarrow> bool" where
  "returned_ok ex objs x r \<longleftrightarrow>
     all_succeed ex objs \<and>
     mset (sl_links x) = mset (filter valid_size (expected_links ex objs)) \<and>
     r = json_Marshal ex x"

definition Inv :: "externals \<Rightarrow> ObjectInfo option list \<Rightarrow> state \<Rightarrow> bool" where
  "Inv ex objs s \<longleftrightarrow>
     length (gos s) \<le> length objs \<and>
     list_all2 task_rel (take (length (gos s)) (tasks ex objs)) (gos s) \<and>
     (\<forall>err. Some err \<in> set (errChan s) \<longrightarrow> err \<in> set (task_errors ex objs)) \<and>
     (case pc s of
        MRange rest \<Rightarrow> rest = drop (length (gos s)) objs \<and> counts s 0 0
      | MRecvErr k \<Rightarrow> k \<le> length objs \<and> counts s k k
      | MRecvLink k \<Rightarrow> k < length objs \<and> counts s (Suc k) k
      | MCloseQuit err \<Rightarrow> err \<in> set (task_errors ex objs)
      | MReturned x r \<Rightarrow>
          sl s = x \<and>
          (returned_ok ex objs x r \<or> (\<exists>err. r = Some err \<and> err \<in> set (task_errors ex objs))))"

text \<open>
  The number of steps an execution can still take: every step of a thread lowers it.
\<close>

definition go_left :: "gstate \<Rightarrow> nat" where
  "go_left g =
     (case g of
        GStart obj \<Rightarrow> 3
      | GSendErr err \<Rightarrow> 2
      | GCloseQuit err \<Rightarrow> 1
      | GReturn err \<Rightarrow> 0
      | GSendNil li \<Rightarrow> 2
      | GSendLink li \<Rightarrow> 1
      | GEnd li \<Rightarrow> 0)"

definition caller_left :: "nat \<Rightarrow> mstate \<Rightarrow> nat" where
  "caller_left n p =
     (case p of
        MRange rest \<Rightarrow> 4 * length rest + 2 * n + 3
      | MRecvErr k \<Rightarrow> 2 * (n - k) + 2
      | MRecvLink k \<Rightarrow> 2 * (n - k) + 1
      | MCloseQuit err \<Rightarrow> 1
      | MReturned x r \<Rightarrow> 0)"

definition steps_left :: "nat \<Rightarrow> state \<Rightarrow> nat" where
  "steps_left n s =
     (if panic s = None then 1 + caller_left n (pc s) + sum_list (map go_left (gos s)) else 0)"

text \<open>
  While no upload fails and no task is nil, \<^verbatim>\<open>quit\<close> stays open, nothing panics, and once the
  dispatch loop is left every task has its goroutine.
\<close>

definition Inv_ok :: "ObjectInfo option list \<Rightarrow> state \<Rightarrow> bool" where
  "Inv_ok objs s \<longleftrightarrow>
     \<not> quit s \<and> panic s = None \<and>
     (case pc s of MRange rest \<Rightarrow> True | _ \<Rightarrow> length (gos s) = length objs)"

text \<open>
  The closes of \<^verbatim>\<open>quit\<close>. \<open>err_sent\<close> holds one element when the goroutine has sent its error
  on \<^verbatim>\<open>errChan\<close>, \<open>quit_closed\<close> when it has gone on to close \<^verbatim>\<open>quit\<close>. While nothing has
  panicked: the errors sent are those still in the buffer and the one the collector has
  received, \<^verbatim>\<open>quit\<close> is closed exactly when some thread has closed it, and at most one thread
  has.
\<close>

definition err_sent :: "gstate \<Rightarrow> unit list" where
  "err_sent g = (case g of GCloseQuit err \<Rightarrow> [()] | GReturn err \<Rightarrow> [()] | _ \<Rightarrow> [])"

definition quit_closed :: "gstate \<Rightarrow> unit list" where
  "quit_closed g = (case g of GReturn err \<Rightarrow> [()] | _ \<Rightarrow> [])"

definition errs_in :: "error option list \<Rightarrow> unit list" where
  "errs_in buf = concat (map (\<lambda>m. case m of None \<Rightarrow> [] | Some err \<Rightarrow> [()]) buf)"

definition closes :: "state \<Rightarrow> nat \<Rightarrow> bool" where
  "closes s b \<longleftrightarrow>
     length (concat (map err_sent (gos s))) = b + length (errs_in (errChan s)) \<and>
     (quit s \<longleftrightarrow> concat (map quit_closed (gos s)) \<noteq> []) \<and>
     length (concat (map quit_closed (gos s))) \<le> 1"

definition Inv_close :: "externals \<Rightarrow> ObjectInfo option list \<Rightarrow> state \<Rightarrow> bool" where
  "Inv_close ex objs s \<longleftrightarrow>
     panic s \<noteq> None \<or>
     (case pc s of
        MRange rest \<Rightarrow> closes s 0
      | MRecvErr k \<Rightarrow> closes s 0
      | MRecvLink k \<Rightarrow> closes s 0
      | MCloseQuit err \<Rightarrow> closes s 1
      | MReturned x r \<Rightarrow>
          returned_ok ex objs x r \<or>
          (length (concat (map err_sent (gos s))) = Suc (length (errs_in (errChan s))) \<and>
           quit s \<and> concat (map quit_closed (gos s)) = []))"

subsection \<open>Concrete inputs\<close>

text \<open>
  Inputs on which the statements below are evaluated: a time, encoders that succeed with
  fixed bytes (images are numbers here), and a storage client that fails only for the
  object named \<^verbatim>\<open>bad\<close>.
\<close>

definition example_time :: time where
  "example_time = \<lparr>Year = 2024, Month = 1, Day = 2, Hour = 3, Minute = 4, Second = 5\<rparr>"

definition example_encoders :: "nat encoders" where
  "example_encoders =
     \<lparr>png_Encode = (\<lambda>level img. Inr ''png''),
      jpeg_Encode = (\<lambda>quality img. Inr ''jpeg''),
      gif_Encode = (\<lambda>img. Inr ''gif'')\<rparr>"

definition example_externals :: externals where
  "example_externals =
     \<lparr>io_Copy = (\<lambda>j name file. if name = ''bad'' then Some (Error ''copy failed'') else None),
      Writer_Close = (\<lambda>j name. None),
      ACL_Set = (\<lambda>j name. None),
      Object_Attrs = (\<lambda>j name. Inr \<lparr>Bucket = ''bk'', AttrsName = name\<rparr>),
      json_Marshal = (\<lambda>s. None)\<rparr>"


definition example_clock :: "nat \<Rightarrow> time" where
  "example_clock k = (if k < 2 then example_time else example_time\<lparr>Second := 6\<rparr>)"

definition example_unsupported :: "nat Images list" where
  "example_unsupported =
     [\<lparr>ImagesName = ''a.png'', Mime = ''image/png'', OrigImage = 1, ImagesThumbnail = 2\<rparr>,
      \<lparr>ImagesName = ''b.bmp'', Mime = ''image/bmp'', OrigImage = 3, ImagesThumbnail = 4\<rparr>,
      \<lparr>ImagesName = ''c.png'', Mime = ''image/png'', OrigImage = 5, ImagesThumbnail = 6\<rparr>]"

definition example_gif :: "nat Images" where
  "example_gif = \<lparr>ImagesName = ''a.gif'', Mime = ''image/gif'', OrigImage = 1, ImagesThumbnail = 2\<rparr>"



text \<open>Three tasks: two whose upload succeeds and one whose upload fails.\<close>

definition example_original :: "ObjectInfo option" where
  "example_original = Some \<lparr>Size = Original, Name = ''o1'', Reader = ''x''\<rparr>"

definition example_thumbnail :: "ObjectInfo option" where
  "example_thumbnail = Some \<lparr>Size = Thumbnail, Name = ''t1'', Reader = ''y''\<rparr>"

definition example_bad :: "ObjectInfo option" where
  "example_bad = Some \<lparr>Size = Thumbnail, Name = ''bad'', Reader = ''z''\<rparr>"

section \<open>Properties\<close>

subsection \<open>Facts about splitting\<close>

lemma Split_dot_nonempty: "Split_dot s \<noteq> []"
  by (induction s) (auto split: list.splits)

lemma Split_dot_no_dot:
  "CHR ''.'' \<notin> set s \<Longrightarrow> Split_dot s = [s]"
  by (induction s) auto

lemma hd_Split_dot_append:
  "CHR ''.'' \<notin> set stem \<Longrightarrow> hd (Split_dot (stem @ CHR ''.'' # rest)) = stem"
  by (induction stem) (auto split: list.splits simp: Split_dot_nonempty)

lemma length_Split_dot:
  "length (Split_dot s) = Suc (length (filter (\<lambda>c. c = CHR ''.'') s))"
  by (induction s) (auto split: list.splits)

lemma last_Split_dot_Cons:
  "Suc 0 < length (Split_dot cs) \<Longrightarrow> last (Split_dot (c # cs)) = last (Split_dot cs)"
  by (cases "Split_dot cs") auto

lemma last_Split_dot_append:
  "CHR ''.'' \<notin> set ext \<Longrightarrow> last (Split_dot (pre @ CHR ''.'' # ext)) = ext"
proof (induction pre)
  case Nil
  then show ?case by (simp add: Split_dot_no_dot)
next
  case (Cons c pre)
  have "Suc 0 < length (Split_dot (pre @ CHR ''.'' # ext))"
    by (simp add: length_Split_dot)
  then have "last (Split_dot (c # pre @ CHR ''.'' # ext)) = last (Split_dot (pre @ CHR ''.'' # ext))"
    by (rule last_Split_dot_Cons)
  with Cons show ?case by simp
qed

subsection \<open>Facts about the timestamp format\<close>





















subsection \<open>Filename stamping\<close>

lemma count_dots_decompose:
  assumes "2 \<le> length (filter (\<lambda>c. c = CHR ''.'') filename)"
  shows "\<exists>stem mid ext. filename = stem @ ''.'' @ mid @ ''.'' @ ext \<and>
           CHR ''.'' \<notin> set stem \<and> CHR ''.'' \<notin> set ext"
proof -
  from assms have "filter (\<lambda>c. c = CHR ''.'') filename \<noteq> []" by auto
  then have "CHR ''.'' \<in> set filename"
    by (auto simp: filter_empty_conv)
  then obtain stem r where f: "filename = stem @ CHR ''.'' # r" and stem: "CHR ''.'' \<notin> set stem"
    by (auto dest: split_list_first)
  have "filter (\<lambda>c. c = CHR ''.'') stem = []"
    using stem by (induction stem) auto
  with assms f have "filter (\<lambda>c. c = CHR ''.'') r \<noteq> []"
    by auto
  then have "CHR ''.'' \<in> set r"
    by (auto simp: filter_empty_conv)
  then obtain mid ext where r: "r = mid @ CHR ''.'' # ext" and ext: "CHR ''.'' \<notin> set ext"
    by (auto dest: split_list_last)
  from f r stem ext show ?thesis by auto
qed

text \<open>
  C9. A filename with two or more dots splits as \<open>stem.mid.ext\<close>, where \<open>stem\<close> is its
  first dot-separated segment and \<open>ext\<close> its last; stamping it returns
  \<open>stem_<timestamp>.ext\<close>, the timestamp in the layout \<^verbatim>\<open>20060102150405\<close>: the middle
  segments are dropped.
\<close>

theorem stamp_multiple_dots:
  assumes "2 \<le> length (filter (\<lambda>c. c = CHR ''.'') filename)"
  shows "\<exists>stem mid ext.
           filename = stem @ ''.'' @ mid @ ''.'' @ ext \<and>
           CHR ''.'' \<notin> set stem \<and> CHR ''.'' \<notin> set ext \<and>
           hd (Split_dot filename) = stem \<and> last (Split_dot filename) = ext \<and>
           AppendUnixTimeStampToFilename now filename =
             stem @ ''_'' @ Format_20060102150405 now @ ''.'' @ ext"
proof -
  from count_dots_decompose [OF assms] obtain stem mid ext
    where f: "filename = stem @ ''.'' @ mid @ ''.'' @ ext"
      and stem: "CHR ''.'' \<notin> set stem" and ext: "CHR ''.'' \<notin> set ext"
    by blast
  have h: "hd (Split_dot filename) = stem"
    using stem by (simp add: f hd_Split_dot_append)
  have "filename = (stem @ ''.'' @ mid) @ CHR ''.'' # ext"
    by (simp add: f)
  then have l: "last (Split_dot filename) = ext"
    using ext last_Split_dot_append [of ext "stem @ ''.'' @ mid"] by simp
  from h l have "AppendUnixTimeStampToFilename now filename =
      stem @ ''_'' @ Format_20060102150405 now @ ''.'' @ ext"
    by (simp add: AppendUnixTimeStampToFilename_def Let_def)
  with f stem ext h l show ?thesis by blast
qed

theorem stamp_multiple_dots_witness:
  "2 \<le> length (filter (\<lambda>c. c = CHR ''.'') ''a.b.c.png'') \<and>
   (\<exists>stem mid ext.
      ''a.b.c.png'' = stem @ ''.'' @ mid @ ''.'' @ ext \<and>
      CHR ''.'' \<notin> set stem \<and> CHR ''.'' \<notin> set ext \<and>
      hd (Split_dot ''a.b.c.png'') = stem \<and> last (Split_dot ''a.b.c.png'') = ext \<and>
      AppendUnixTimeStampToFilename example_time ''a.b.c.png'' =
        stem @ ''_'' @ Format_20060102150405 example_time @ ''.'' @ ext)"
proof -
  have h: "2 \<le> length (filter (\<lambda>c. c = CHR ''.'') ''a.b.c.png'')" by simp
  from h stamp_multiple_dots [OF h, of example_time] show ?thesis by blast
qed

text \<open>
  C10. A filename without a dot is its own single segment, so it serves as stem and as
  extension: stamping \<open>name\<close> returns \<open>name_<timestamp>.name\<close>, and the thumbnail marker
  gives \<open>name_thumbnail.name\<close>.
\<close>

theorem stamp_no_dot:
  assumes "CHR ''.'' \<notin> set filename"
  shows "AppendUnixTimeStampToFilename now filename =
           filename @ ''_'' @ Format_20060102150405 now @ ''.'' @ filename \<and>
         appendThumbnailStamp filename = filename @ ''_thumbnail.'' @ filename"
  using assms
  by (simp add: AppendUnixTimeStampToFilename_def appendThumbnailStamp_def Split_dot_no_dot)

theorem stamp_no_dot_witness:
  "CHR ''.'' \<notin> set ''name'' \<and>
   AppendUnixTimeStampToFilename example_time ''name'' = ''name_20240102030405.name'' \<and>
   appendThumbnailStamp ''name'' = ''name_thumbnail.name''"
proof -
  have h: "CHR ''.'' \<notin> set ''name''" by simp
  have "Format_20060102150405 example_time = ''20240102030405''" by code_simp
  with h stamp_no_dot [OF h, of example_time] show ?thesis by simp
qed

subsection \<open>Link formatting\<close>

lemma escape_Cons: "escape (c # cs) m = escape_char m c @ escape cs m"
  by (simp add: escape_def)

lemma escape_Nil: "escape [] m = []"
  by (simp add: escape_def)

lemma escape_append: "escape (a @ b) m = escape a m @ escape b m"
  by (simp add: escape_def)

lemma escape_id: "\<forall>c\<in>set s. \<not> shouldEscape c m \<Longrightarrow> escape s m = s"
  by (induction s) (simp_all add: escape_Nil escape_Cons escape_char_def)

lemma shouldEscape_slash: "\<not> shouldEscape (CHR ''/'') encodePath"
  by code_simp

lemma shouldEscape_question: "shouldEscape (CHR ''?'') encodePath"
  by code_simp

lemma escape_host_GCSPublicHost: "escape GCSPublicHost encodeHost = GCSPublicHost"
  by code_simp

lemma hd_escape_char:
  "(hd (escape_char encodePath c) = CHR ''/'') = (c = CHR ''/'')"
  using shouldEscape_slash by (auto simp: escape_char_def)

lemma escape_char_nonempty: "escape_char m c \<noteq> []"
  by (simp add: escape_char_def)

lemma hd_escape_path:
  "s \<noteq> [] \<Longrightarrow> (hd (escape s encodePath) = CHR ''/'') = (hd s = CHR ''/'')"
  by (cases s) (simp_all add: escape_Cons escape_char_nonempty hd_escape_char)

lemma escape_nonempty: "s \<noteq> [] \<Longrightarrow> escape s m \<noteq> []"
  by (cases s) (simp_all add: escape_Cons escape_char_nonempty)

lemma of_char_less_256: "(of_char c :: nat) < 256"
proof -
  have "(of_char c :: nat) = of_char c mod 256" by (simp add: of_char_mod_256)
  also have "\<dots> < 256" by simp
  finally show ?thesis .
qed

lemma upperhex_no_question: "k < 16 \<Longrightarrow> upperhex ! k \<noteq> CHR ''?''"
proof -
  assume k: "k < 16"
  have "length upperhex = 16" by (simp add: upperhex_def)
  with k have "upperhex ! k \<in> set upperhex" by (metis nth_mem)
  moreover have "CHR ''?'' \<notin> set upperhex" by (simp add: upperhex_def)
  ultimately show ?thesis by metis
qed

lemma escape_char_no_question: "CHR ''?'' \<notin> set (escape_char encodePath c)"
proof -
  have "(of_char c :: nat) div 16 < 16"
    using of_char_less_256 [of c] by (simp add: less_mult_imp_div_less)
  moreover have "(of_char c :: nat) mod 16 < 16" by simp
  ultimately
  have "upperhex ! ((of_char c :: nat) div 16) \<noteq> CHR ''?''"
    "upperhex ! ((of_char c :: nat) mod 16) \<noteq> CHR ''?''"
    by (simp_all add: upperhex_no_question)
  then show ?thesis
    using shouldEscape_question by (auto simp: escape_char_def)
qed

lemma escape_no_question: "CHR ''?'' \<notin> set (escape s encodePath)"
  by (induction s) (simp_all add: escape_Nil escape_Cons escape_char_no_question)

lemma ObjectLink_eq:
  "ObjectLink attr =
     ''https://'' @ GCSPublicHost @
     (if hd (Bucket attr @ ''/'') = CHR ''/'' then [] else ''/'') @
     escape (Bucket attr @ ''/'' @ AttrsName attr) encodePath"
proof -
  let ?p = "Bucket attr @ ''/'' @ AttrsName attr"
  have ne: "?p \<noteq> []" by simp
  have star: "?p \<noteq> ''*''"
    by (cases "Bucket attr") auto
  have hdp: "hd ?p = hd (Bucket attr @ ''/'')"
    by (cases "Bucket attr") auto
  have host: "GCSPublicHost \<noteq> []" by (simp add: GCSPublicHost_def)
  show ?thesis
    using star host hd_escape_path [OF ne] escape_nonempty [OF ne, of encodePath] hdp
    by (simp add: ObjectLink_def URL_String_def EscapedPath_def Let_def
        escape_host_GCSPublicHost)
qed

text \<open>
  C8, as the code has it. For a bucket that is not empty and does not begin with a slash,
  the link is \<^verbatim>\<open>https://\<close> + host + \<^verbatim>\<open>/\<close> + the percent-encoding of \<^verbatim>\<open>bucket/objectName\<close>. It
  never contains a question mark, so it has no query part. It is the plain concatenation
  when no byte of the bucket and the object name is one that the path encoding escapes.
\<close>

theorem ObjectLink_escaped:
  assumes "Bucket attr \<noteq> []" and "hd (Bucket attr) \<noteq> CHR ''/''"
  shows "ObjectLink attr =
           ''https://'' @ GCSPublicHost @ ''/'' @
           escape (Bucket attr @ ''/'' @ AttrsName attr) encodePath \<and>
         CHR ''?'' \<notin> set (ObjectLink attr) \<and>
         ((\<forall>c\<in>set (Bucket attr @ AttrsName attr). \<not> shouldEscape c encodePath) \<longrightarrow>
          ObjectLink attr =
            ''https://'' @ GCSPublicHost @ ''/'' @ Bucket attr @ ''/'' @ AttrsName attr)"
proof -
  let ?p = "Bucket attr @ ''/'' @ AttrsName attr"
  from assms have "hd (Bucket attr @ ''/'') \<noteq> CHR ''/''" by (cases "Bucket attr") auto
  then have eq: "ObjectLink attr = ''https://'' @ GCSPublicHost @ ''/'' @ escape ?p encodePath"
    by (simp add: ObjectLink_eq)
  have q: "CHR ''?'' \<notin> set (ObjectLink attr)"
    using escape_no_question [of ?p] by (simp add: eq GCSPublicHost_def)
  have "escape ?p encodePath = ?p"
    if "\<forall>c\<in>set (Bucket attr @ AttrsName attr). \<not> shouldEscape c encodePath"
    using that shouldEscape_slash by (intro escape_id) auto
  with eq q show ?thesis by simp
qed

theorem ObjectLink_escaped_witness:
  "Bucket \<lparr>Bucket = ''bk'', AttrsName = ''a b?.png''\<rparr> \<noteq> [] \<and>
   hd (Bucket \<lparr>Bucket = ''bk'', AttrsName = ''a b?.png''\<rparr>) \<noteq> CHR ''/'' \<and>
   ObjectLink \<lparr>Bucket = ''bk'', AttrsName = ''a b?.png''\<rparr> =
     ''https://storage.googleapis.com/bk/a%20b%3F.png'' \<and>
   CHR ''?'' \<notin> set (ObjectLink \<lparr>Bucket = ''bk'', AttrsName = ''a b?.png''\<rparr>) \<and>
   list_all (\<lambda>c. \<not> shouldEscape c encodePath) (''bk'' @ ''photo_1.png'') \<and>
   ObjectLink \<lparr>Bucket = ''bk'', AttrsName = ''photo_1.png''\<rparr> =
     ''https://storage.googleapis.com/bk/photo_1.png''"
proof -
  let ?a = "\<lparr>Bucket = ''bk'', AttrsName = ''a b?.png''\<rparr>"
  let ?b = "\<lparr>Bucket = ''bk'', AttrsName = ''photo_1.png''\<rparr>"
  have h1: "Bucket ?a \<noteq> []" and h2: "hd (Bucket ?a) \<noteq> CHR ''/''" by simp_all
  have e: "escape (Bucket ?a @ ''/'' @ AttrsName ?a) encodePath = ''bk/a%20b%3F.png''"
    by code_simp
  have g1: "Bucket ?b \<noteq> []" and g2: "hd (Bucket ?b) \<noteq> CHR ''/''" by simp_all
  have safe: "list_all (\<lambda>c. \<not> shouldEscape c encodePath) (''bk'' @ ''photo_1.png'')"
    by code_simp
  then have g3: "\<forall>c\<in>set (Bucket ?b @ AttrsName ?b). \<not> shouldEscape c encodePath"
    by (simp add: list_all_iff)
  have "(\<forall>c\<in>set (Bucket ?b @ AttrsName ?b). \<not> shouldEscape c encodePath) \<longrightarrow>
      ObjectLink ?b = ''https://'' @ GCSPublicHost @ ''/'' @ Bucket ?b @ ''/'' @ AttrsName ?b"
    using ObjectLink_escaped [OF g1 g2] by blast
  with g3 have "ObjectLink ?b =
      ''https://'' @ GCSPublicHost @ ''/'' @ Bucket ?b @ ''/'' @ AttrsName ?b"
    by blast
  then have "ObjectLink ?b = ''https://storage.googleapis.com/bk/photo_1.png''"
    by (simp add: GCSPublicHost_def)
  with ObjectLink_escaped [OF h1 h2] e h1 h2 safe show ?thesis
    by (simp add: GCSPublicHost_def)
qed

text \<open>
  C8 as stated fails: a space in the object name is escaped, so the link is not the plain
  concatenation.
\<close>

theorem ObjectLink_escapes_counterexample:
  "ObjectLink \<lparr>Bucket = ''bk'', AttrsName = ''a b.png''\<rparr> \<noteq>
     ''https://'' @ GCSPublicHost @ ''/'' @ ''bk'' @ ''/'' @ ''a b.png''"
  by code_simp

subsection \<open>Preparing the upload tasks\<close>

lemma prepare_gif:
  assumes "Mime img = ''image/gif''"
    and "gif_Encode enc (OrigImage img) = Inr origBuf"
    and "gif_Encode enc (ImagesThumbnail img) = Inr thumbBuf"
  shows "prepare_image enc t1 t2 img =
           Inr [Some \<lparr>Size = Thumbnail,
                      Name = AppendUnixTimeStampToFilename t1 (filepath_Base (ImagesName img)),
                      Reader = origBuf\<rparr>,
                None]"
  using assms by (simp add: prepare_image_def)

lemma prepare_png:
  assumes "Mime img = ''image/png''"
    and "png_Encode enc png_BestCompression (OrigImage img) = Inr origBuf"
    and "png_Encode enc png_BestCompression (ImagesThumbnail img) = Inr thumbBuf"
  shows "prepare_image enc t1 t2 img =
           Inr [Some \<lparr>Size = Original,
                      Name = AppendUnixTimeStampToFilename t1 (filepath_Base (ImagesName img)),
                      Reader = origBuf\<rparr>,
                Some \<lparr>Size = Thumbnail,
                      Name = AppendUnixTimeStampToFilename t2
                               (appendThumbnailStamp (filepath_Base (ImagesName img))),
                      Reader = thumbBuf\<rparr>]"
  using assms by (simp add: prepare_image_def)

lemma prepare_jpeg:
  assumes "Mime img = ''image/jpeg''"
    and "jpeg_Encode enc jpeg_DefaultQuality (OrigImage img) = Inr origBuf"
    and "jpeg_Encode enc 40 (ImagesThumbnail img) = Inr thumbBuf"
  shows "prepare_image enc t1 t2 img =
           Inr [Some \<lparr>Size = Original,
                      Name = AppendUnixTimeStampToFilename t1 (filepath_Base (ImagesName img)),
                      Reader = origBuf\<rparr>,
                Some \<lparr>Size = Thumbnail,
                      Name = AppendUnixTimeStampToFilename t2
                               (appendThumbnailStamp (filepath_Base (ImagesName img))),
                      Reader = thumbBuf\<rparr>]"
  using assms by (simp add: prepare_image_def)

lemma prepare_unsupported:
  assumes "Mime img \<noteq> ''image/png''" "Mime img \<noteq> ''image/jpeg''" "Mime img \<noteq> ''image/gif''"
  shows "prepare_image enc t1 t2 img = Inr [None, None]"
  using assms by (simp add: prepare_image_def)


lemma Format_example_time: "Format_20060102150405 example_time = ''20240102030405''"
  by code_simp

lemma Format_example_time_later:
  "Format_20060102150405 (example_time\<lparr>Second := 6\<rparr>) = ''20240102030406''"
  by code_simp

lemmas prepare_eval =
  prepare_image_def example_encoders_def AppendUnixTimeStampToFilename_def
  appendThumbnailStamp_def filepath_Base_def Format_example_time Format_example_time_later
  Original_def Thumbnail_def example_clock_def

text \<open>Every task that preparation emits is nil or tagged with one of the two named sizes.\<close>

lemma prepare_image_sizes_ok:
  "prepare_image enc t1 t2 img = Inr objs \<Longrightarrow> sizes_ok objs"
  by (auto simp: prepare_image_def Let_def sizes_ok_def split: if_splits sum.splits)

lemma prepare_sizes_ok:
  "prepare enc now k imgs acc = Inr ois \<Longrightarrow> sizes_ok acc \<Longrightarrow> sizes_ok ois"
proof (induction imgs arbitrary: k acc)
  case Nil
  then show ?case by simp
next
  case (Cons img imgs)
  from Cons.prems(1) obtain objs
    where objs: "prepare_image enc (now k) (now (Suc k)) img = Inr objs"
      and rest: "prepare enc now (Suc (Suc k)) imgs (acc @ objs) = Inr ois"
    by (auto split: sum.splits)
  from prepare_image_sizes_ok [OF objs] Cons.prems(2) have "sizes_ok (acc @ objs)"
    by (simp add: sizes_ok_def)
  with rest show ?case by (rule Cons.IH)
qed






text \<open>
  C4 fails for \<^verbatim>\<open>image/gif\<close>: when both encodings succeed, the first entry is tagged
  \<open>Thumbnail\<close> and carries the original's name and the original's bytes, and the second entry
  is the nil pointer.
\<close>

theorem prepare_gif_overwrites_original:
  "prepare_image example_encoders example_time example_time example_gif =
     Inr [Some \<lparr>Size = Thumbnail, Name = ''a_20240102030405.gif'', Reader = ''gif''\<rparr>, None]"
  by (simp add: example_gif_def prepare_eval)

text \<open>
  C3 fails: for a batch with an image of an unsupported mime type preparation returns no
  error but two nil tasks for that image; the uploads start, and in this execution the
  first object has been uploaded when the goroutine of a nil task panics.
\<close>

theorem unsupported_format_not_rejected:
  "prepare example_encoders (\<lambda>k. example_time) 0 example_unsupported [] =
     Inr [Some \<lparr>Size = Original, Name = ''a_20240102030405.png'', Reader = ''png''\<rparr>,
          Some \<lparr>Size = Thumbnail, Name = ''a_thumbnail_20240102030405.png'', Reader = ''png''\<rparr>,
          None, None,
          Some \<lparr>Size = Original, Name = ''c_20240102030405.png'', Reader = ''png''\<rparr>,
          Some \<lparr>Size = Thumbnail, Name = ''c_thumbnail_20240102030405.png'', Reader = ''png''\<rparr>] \<and>
   uploads (UploadImages example_externals example_encoders (\<lambda>k. example_time)
              example_unsupported [Caller, Go 0, Caller, Caller, Go 2]) =
     [''a_20240102030405.png''] \<and>
   panic (UploadImages example_externals example_encoders (\<lambda>k. example_time)
              example_unsupported [Caller, Go 0, Caller, Caller, Go 2]) =
     Some ''invalid memory address or nil pointer dereference''"
  proof -
  let ?ois = "[Some \<lparr>Size = Original, Name = ''a_20240102030405.png'', Reader = ''png''\<rparr>,
          Some \<lparr>Size = Thumbnail, Name = ''a_thumbnail_20240102030405.png'', Reader = ''png''\<rparr>,
          None, None,
          Some \<lparr>Size = Original, Name = ''c_20240102030405.png'', Reader = ''png''\<rparr>,
          Some \<lparr>Size = Thumbnail, Name = ''c_thumbnail_20240102030405.png'', Reader = ''png''\<rparr>]"
  let ?s = "UploadImages example_externals example_encoders (\<lambda>k. example_time)
              example_unsupported [Caller, Go 0, Caller, Caller, Go 2]"
  have p: "prepare example_encoders (\<lambda>k. example_time) 0 example_unsupported [] = Inr ?ois"
    by (simp add: example_unsupported_def prepare_eval)
  have "uploads ?s = [''a_20240102030405.png''] \<and>
        panic ?s = Some ''invalid memory address or nil pointer dereference''"
    by (simp add: UploadImages_def p uploadMultiple_def init_def step_def caller_step_def
        go_step_def)
  with p show ?thesis by simp
qed

subsection \<open>The invariant of the batch upload\<close>

lemma concat_map_update:
  "j < length xs \<Longrightarrow>
   mset (concat (map f (xs[j := y]))) + mset (f (xs ! j)) = mset (concat (map f xs)) + mset (f y)"
proof (induction xs arbitrary: j)
  case Nil
  then show ?case by simp
next
  case (Cons x xs)
  then show ?case by (cases j) (simp_all add: ac_simps)
qed

lemma concat_map_update_length:
  assumes "j < length xs"
  shows "length (concat (map f (xs[j := y]))) + length (f (xs ! j)) =
         length (concat (map f xs)) + length (f y)"
proof -
  have "size (mset (concat (map f (xs[j := y]))) + mset (f (xs ! j))) =
        size (mset (concat (map f xs)) + mset (f y))"
    by (simp only: concat_map_update [OF assms])
  then show ?thesis by simp
qed

lemma filter_concat_map: "filter P (concat (map f xs)) = concat (map (\<lambda>x. filter P (f x)) xs)"
  by (induction xs) simp_all

lemma concat_map_update_filter:
  assumes "j < length xs"
  shows "mset (filter P (concat (map f (xs[j := y])))) + mset (filter P (f (xs ! j))) =
         mset (filter P (concat (map f xs))) + mset (filter P (f y))"
  unfolding filter_concat_map by (rule concat_map_update [OF assms])

lemma rel_update:
  assumes "list_all2 R xs ys" and "j < length ys" and "R (xs ! j) y"
  shows "list_all2 R xs (ys[j := y])"
proof -
  have "list_all2 R (xs[j := xs ! j]) (ys[j := y])"
    using assms(1,3) by (rule list_all2_update_cong)
  then show ?thesis by simp
qed

lemma length_outcomes: "length (outcomes ex objs) = length objs"
  by (simp add: outcomes_def)

lemma length_tasks: "length (tasks ex objs) = length objs"
  by (simp add: tasks_def length_outcomes)

lemma outcomes_nth: "j < length objs \<Longrightarrow> outcomes ex objs ! j = task_outcome ex j (objs ! j)"
  by (simp add: outcomes_def nth_enumerate_eq)

lemma tasks_nth:
  "j < length objs \<Longrightarrow> tasks ex objs ! j = (objs ! j, task_outcome ex j (objs ! j))"
  by (simp add: tasks_def length_outcomes outcomes_nth)

lemma map_snd_tasks: "map snd (tasks ex objs) = outcomes ex objs"
  by (simp add: tasks_def length_outcomes)

lemma task_error_mem:
  "j < length objs \<Longrightarrow> outcomes ex objs ! j = Some (Inl err) \<Longrightarrow> err \<in> set (task_errors ex objs)"
proof -
  assume j: "j < length objs" and o: "outcomes ex objs ! j = Some (Inl err)"
  from j have "outcomes ex objs ! j \<in> set (outcomes ex objs)"
    by (simp add: length_outcomes)
  with o have "Some (Inl err) \<in> set (outcomes ex objs)" by simp
  then show ?thesis by (force simp: task_errors_def)
qed



lemma Inv_quit_update [simp]: "Inv ex objs (s\<lparr>quit := q\<rparr>) = Inv ex objs s"
  by (cases "pc s") (simp_all add: Inv_def counts_def)

lemma Inv_panic_update [simp]: "Inv ex objs (s\<lparr>panic := p\<rparr>) = Inv ex objs s"
  by (cases "pc s") (simp_all add: Inv_def counts_def)

lemma Inv_uploads_update [simp]: "Inv ex objs (s\<lparr>uploads := u\<rparr>) = Inv ex objs s"
  by (cases "pc s") (simp_all add: Inv_def counts_def)

lemma Inv_task_rel:
  assumes "Inv ex objs s" and "j < length (gos s)"
  shows "task_rel (tasks ex objs ! j) (gos s ! j)" and "j < length objs"
proof -
  from assms show j: "j < length objs" by (simp add: Inv_def)
  from assms(1) have "list_all2 task_rel (take (length (gos s)) (tasks ex objs)) (gos s)"
    by (simp add: Inv_def)
  from list_all2_nthD2 [OF this assms(2)] assms(2)
  show "task_rel (tasks ex objs ! j) (gos s ! j)" by simp
qed

lemma Inv_go_update:
  assumes inv: "Inv ex objs s" and j: "j < length (gos s)"
    and rel: "task_rel (tasks ex objs ! j) g'"
    and errs: "\<forall>err. Some err \<in> set buf' \<longrightarrow> err \<in> set (task_errors ex objs)"
    and cnt: "\<And>a b. counts s a b \<Longrightarrow>
                counts (s\<lparr>errChan := buf', linkChan := lbuf', gos := (gos s)[j := g']\<rparr>) a b"
  shows "Inv ex objs (s\<lparr>errChan := buf', linkChan := lbuf', gos := (gos s)[j := g']\<rparr>)"
proof -
  let ?s' = "s\<lparr>errChan := buf', linkChan := lbuf', gos := (gos s)[j := g']\<rparr>"
  from inv have l2: "list_all2 task_rel (take (length (gos s)) (tasks ex objs)) (gos s)"
    by (simp add: Inv_def)
  have "list_all2 task_rel (take (length (gos s)) (tasks ex objs)) ((gos s)[j := g'])"
    using l2 j rel by (intro rel_update) simp_all
  then have a: "list_all2 task_rel (take (length (gos ?s')) (tasks ex objs)) (gos ?s')"
    by simp
  have b: "length (gos ?s') \<le> length objs" using inv by (simp add: Inv_def)
  have c: "\<forall>err. Some err \<in> set (errChan ?s') \<longrightarrow> err \<in> set (task_errors ex objs)"
    using errs by simp
  have d: "case pc ?s' of
        MRange rest \<Rightarrow> rest = drop (length (gos ?s')) objs \<and> counts ?s' 0 0
      | MRecvErr k \<Rightarrow> k \<le> length objs \<and> counts ?s' k k
      | MRecvLink k \<Rightarrow> k < length objs \<and> counts ?s' (Suc k) k
      | MCloseQuit err \<Rightarrow> err \<in> set (task_errors ex objs)
      | MReturned x r \<Rightarrow>
          sl ?s' = x \<and>
          (returned_ok ex objs x r \<or> (\<exists>err. r = Some err \<and> err \<in> set (task_errors ex objs)))"
  proof (cases "pc s")
    case (MRange rest)
    with inv have "rest = drop (length (gos s)) objs" "counts s 0 0" by (simp_all add: Inv_def)
    with cnt [of 0 0] MRange show ?thesis by simp
  next
    case (MRecvErr k)
    with inv have "k \<le> length objs" "counts s k k" by (simp_all add: Inv_def)
    with cnt [of k k] MRecvErr show ?thesis by simp
  next
    case (MCloseQuit err)
    with inv show ?thesis by (simp add: Inv_def)
  next
    case (MRecvLink k)
    with inv have "k < length objs" "counts s (Suc k) k" by (simp_all add: Inv_def)
    with cnt [of "Suc k" k] MRecvLink show ?thesis by simp
  next
    case (MReturned x r)
    with inv show ?thesis by (simp add: Inv_def)
  qed
  from a b c d show ?thesis unfolding Inv_def by blast
qed


lemma task_rel_started:
  assumes "task_rel (tasks ex objs ! j) (GStart (Some a))" and "j < length objs"
  shows "task_rel (tasks ex objs ! j)
           (case Upload ex j (Reader a) (Name a) of
              Inl err \<Rightarrow> GSendErr err
            | Inr objectLink \<Rightarrow> GSendNil \<lparr>LinkSize = Size a, Link = objectLink\<rparr>)"
proof -
  from assms have "objs ! j = Some a"
    by (simp add: task_rel_def tasks_nth)
  with assms(2) show ?thesis
    by (simp add: task_rel_def tasks_nth task_outcome_def split: sum.splits)
qed

lemma task_rel_error:
  assumes "task_rel (tasks ex objs ! j) (GSendErr err)" and "j < length objs"
  shows "err \<in> set (task_errors ex objs)"
proof -
  from assms have "outcomes ex objs ! j = Some (Inl err)"
    by (simp add: task_rel_def tasks_nth outcomes_nth)
  with assms(2) show ?thesis by (rule task_error_mem)
qed

lemma counts_gos_same:
  assumes "counts s a b" and "j < length (gos s)"
    and "nil_sent g' = nil_sent (gos s ! j)" and "link_sent g' = link_sent (gos s ! j)"
  shows "counts (s\<lparr>errChan := errChan s, linkChan := linkChan s, gos := (gos s)[j := g']\<rparr>) a b"
proof -
  have "length (concat (map nil_sent ((gos s)[j := g']))) = length (concat (map nil_sent (gos s)))"
    using concat_map_update_length [OF assms(2), of nil_sent g'] assms(3) by simp
  moreover have "length (concat (map link_sent ((gos s)[j := g']))) =
      length (concat (map link_sent (gos s)))"
    using concat_map_update_length [OF assms(2), of link_sent g'] assms(4) by simp
  moreover have "mset (filter valid_size (concat (map link_sent ((gos s)[j := g'])))) =
      mset (filter valid_size (concat (map link_sent (gos s))))"
    using concat_map_update_filter [OF assms(2), of valid_size link_sent g'] assms(4) by simp
  ultimately show ?thesis using assms(1) by (simp add: counts_def)
qed

lemma counts_send_err:
  assumes "counts s a b" and "j < length (gos s)" and "gos s ! j = GSendErr err"
  shows "counts (s\<lparr>errChan := errChan s @ [Some err], linkChan := linkChan s,
                   gos := (gos s)[j := GCloseQuit err]\<rparr>) a b"
proof -
  let ?g' = "GCloseQuit err"
  have "length (concat (map nil_sent ((gos s)[j := ?g']))) = length (concat (map nil_sent (gos s)))"
    using concat_map_update_length [OF assms(2), of nil_sent ?g'] assms(3)
    by (simp add: nil_sent_def)
  moreover have "length (concat (map link_sent ((gos s)[j := ?g']))) =
      length (concat (map link_sent (gos s)))"
    using concat_map_update_length [OF assms(2), of link_sent ?g'] assms(3)
    by (simp add: link_sent_def)
  moreover have "mset (filter valid_size (concat (map link_sent ((gos s)[j := ?g'])))) =
      mset (filter valid_size (concat (map link_sent (gos s))))"
    using concat_map_update_filter [OF assms(2), of valid_size link_sent ?g'] assms(3)
    by (simp add: link_sent_def)
  ultimately show ?thesis using assms(1) by (simp add: counts_def nils_in_def)
qed

lemma counts_send_nil:
  assumes "counts s a b" and "j < length (gos s)" and "gos s ! j = GSendNil li"
  shows "counts (s\<lparr>errChan := errChan s @ [None], linkChan := linkChan s,
                   gos := (gos s)[j := GSendLink li]\<rparr>) a b"
proof -
  let ?g' = "GSendLink li"
  have "length (concat (map nil_sent ((gos s)[j := ?g']))) =
      Suc (length (concat (map nil_sent (gos s))))"
    using concat_map_update_length [OF assms(2), of nil_sent ?g'] assms(3)
    by (simp add: nil_sent_def)
  moreover have "length (concat (map link_sent ((gos s)[j := ?g']))) =
      length (concat (map link_sent (gos s)))"
    using concat_map_update_length [OF assms(2), of link_sent ?g'] assms(3)
    by (simp add: link_sent_def)
  moreover have "mset (filter valid_size (concat (map link_sent ((gos s)[j := ?g'])))) =
      mset (filter valid_size (concat (map link_sent (gos s))))"
    using concat_map_update_filter [OF assms(2), of valid_size link_sent ?g'] assms(3)
    by (simp add: link_sent_def)
  ultimately show ?thesis using assms(1) by (simp add: counts_def nils_in_def)
qed

lemma counts_send_link:
  assumes "counts s a b" and "j < length (gos s)" and "gos s ! j = GSendLink li"
  shows "counts (s\<lparr>errChan := errChan s, linkChan := linkChan s @ [li],
                   gos := (gos s)[j := GEnd li]\<rparr>) a b"
proof -
  let ?g' = "GEnd li"
  have "length (concat (map nil_sent ((gos s)[j := ?g']))) =
      length (concat (map nil_sent (gos s)))"
    using concat_map_update_length [OF assms(2), of nil_sent ?g'] assms(3)
    by (simp add: nil_sent_def)
  moreover have "length (concat (map link_sent ((gos s)[j := ?g']))) =
      Suc (length (concat (map link_sent (gos s))))"
    using concat_map_update_length [OF assms(2), of link_sent ?g'] assms(3)
    by (simp add: link_sent_def)
  moreover have "mset (filter valid_size (concat (map link_sent ((gos s)[j := ?g'])))) =
      mset (filter valid_size (concat (map link_sent (gos s)))) + mset (filter valid_size [li])"
    using concat_map_update_filter [OF assms(2), of valid_size link_sent ?g'] assms(3)
    by (simp add: link_sent_def)
  ultimately show ?thesis using assms(1) by (simp add: counts_def)
qed

lemma go_step_Inv:
  assumes inv: "Inv ex objs s" and step: "go_step ex j s = Some s'"
  shows "Inv ex objs s'"
proof -
  from step have j: "j < length (gos s)"
    by (simp add: go_step_def split: if_splits)
  note rel = Inv_task_rel [OF inv j]
  from inv have errs: "\<forall>err. Some err \<in> set (errChan s) \<longrightarrow> err \<in> set (task_errors ex objs)"
    by (simp add: Inv_def)
  show ?thesis
  proof (cases "gos s ! j")
    case (GStart obj)
    show ?thesis
    proof (cases obj)
      case None
      with GStart step j inv show ?thesis by (auto simp: go_step_def)
    next
      case (Some a)
      let ?g' = "case Upload ex j (Reader a) (Name a) of
              Inl err \<Rightarrow> GSendErr err
            | Inr objectLink \<Rightarrow> GSendNil \<lparr>LinkSize = Size a, Link = objectLink\<rparr>"
      from GStart Some rel have r': "task_rel (tasks ex objs ! j) ?g'"
        by (intro task_rel_started) simp_all
      have same: "nil_sent ?g' = nil_sent (gos s ! j)" "link_sent ?g' = link_sent (gos s ! j)"
        using GStart by (simp_all add: nil_sent_def link_sent_def split: sum.splits)
      have "Inv ex objs (s\<lparr>errChan := errChan s, linkChan := linkChan s, gos := (gos s)[j := ?g']\<rparr>)"
        using inv j r' errs
      proof (rule Inv_go_update)
        fix a b assume "counts s a b"
        then show "counts (s\<lparr>errChan := errChan s, linkChan := linkChan s, gos := (gos s)[j := ?g']\<rparr>) a b"
          using j same by (rule counts_gos_same)
      qed
      moreover from GStart Some step j
      have "s' = (s\<lparr>errChan := errChan s, linkChan := linkChan s, gos := (gos s)[j := ?g']\<rparr>)
                 \<lparr>uploads := uploads s @ [Name a]\<rparr>"
        by (auto simp: go_step_def)
      ultimately show ?thesis by simp
    qed
  next
    case (GSendErr err)
    from GSendErr rel have e: "err \<in> set (task_errors ex objs)"
      by (intro task_rel_error [of ex objs j]) simp_all
    from GSendErr rel have r': "task_rel (tasks ex objs ! j) (GCloseQuit err)"
      by (simp add: task_rel_def)
    from errs e have errs': "\<forall>e'. Some e' \<in> set (errChan s @ [Some err]) \<longrightarrow> e' \<in> set (task_errors ex objs)"
      by auto
    have "Inv ex objs (s\<lparr>errChan := errChan s @ [Some err], linkChan := linkChan s,
                        gos := (gos s)[j := GCloseQuit err]\<rparr>)"
      using inv j r' errs'
    proof (rule Inv_go_update)
      fix a b assume "counts s a b"
      then show "counts (s\<lparr>errChan := errChan s @ [Some err], linkChan := linkChan s,
                   gos := (gos s)[j := GCloseQuit err]\<rparr>) a b"
        using j GSendErr by (rule counts_send_err)
    qed
    moreover from GSendErr step j
    have "s' = s\<lparr>errChan := errChan s @ [Some err], linkChan := linkChan s,
                        gos := (gos s)[j := GCloseQuit err]\<rparr>"
      by (auto simp: go_step_def split: if_splits)
    ultimately show ?thesis by simp
  next
    case (GCloseQuit err)
    from GCloseQuit rel have r': "task_rel (tasks ex objs ! j) (GReturn err)"
      by (simp add: task_rel_def)
    have same: "nil_sent (GReturn err) = nil_sent (gos s ! j)"
      "link_sent (GReturn err) = link_sent (gos s ! j)"
      using GCloseQuit by (simp_all add: nil_sent_def link_sent_def)
    have "Inv ex objs (s\<lparr>errChan := errChan s, linkChan := linkChan s,
                         gos := (gos s)[j := GReturn err]\<rparr>)"
      using inv j r' errs
    proof (rule Inv_go_update)
      fix a b assume "counts s a b"
      then show "counts (s\<lparr>errChan := errChan s, linkChan := linkChan s,
                           gos := (gos s)[j := GReturn err]\<rparr>) a b"
        using j same by (rule counts_gos_same)
    qed
    moreover from GCloseQuit step j
    have "s' = s\<lparr>panic := Some ''close of closed channel''\<rparr> \<or>
          s' = (s\<lparr>errChan := errChan s, linkChan := linkChan s,
                         gos := (gos s)[j := GReturn err]\<rparr>)\<lparr>quit := True\<rparr>"
      by (auto simp: go_step_def split: if_splits)
    ultimately show ?thesis using inv by auto
  next
    case (GReturn err)
    with step j show ?thesis by (simp add: go_step_def)
  next
    case (GSendNil li)
    from GSendNil rel have r': "task_rel (tasks ex objs ! j) (GSendLink li)"
      by (simp add: task_rel_def)
    from errs have errs': "\<forall>e'. Some e' \<in> set (errChan s @ [None]) \<longrightarrow> e' \<in> set (task_errors ex objs)"
      by auto
    have "Inv ex objs (s\<lparr>errChan := errChan s @ [None], linkChan := linkChan s,
                        gos := (gos s)[j := GSendLink li]\<rparr>)"
      using inv j r' errs'
    proof (rule Inv_go_update)
      fix a b assume "counts s a b"
      then show "counts (s\<lparr>errChan := errChan s @ [None], linkChan := linkChan s,
                   gos := (gos s)[j := GSendLink li]\<rparr>) a b"
        using j GSendNil by (rule counts_send_nil)
    qed
    moreover from GSendNil step j
    have "s' = s\<lparr>errChan := errChan s @ [None], linkChan := linkChan s,
                        gos := (gos s)[j := GSendLink li]\<rparr>"
      by (auto simp: go_step_def split: if_splits)
    ultimately show ?thesis by simp
  next
    case (GSendLink li)
    from GSendLink rel have r': "task_rel (tasks ex objs ! j) (GEnd li)"
      by (simp add: task_rel_def)
    have "Inv ex objs (s\<lparr>errChan := errChan s, linkChan := linkChan s @ [li],
                        gos := (gos s)[j := GEnd li]\<rparr>)"
      using inv j r' errs
    proof (rule Inv_go_update)
      fix a b assume "counts s a b"
      then show "counts (s\<lparr>errChan := errChan s, linkChan := linkChan s @ [li],
                   gos := (gos s)[j := GEnd li]\<rparr>) a b"
        using j GSendLink by (rule counts_send_link)
    qed
    moreover from GSendLink step j
    have "s' = s\<lparr>errChan := errChan s, linkChan := linkChan s @ [li],
                        gos := (gos s)[j := GEnd li]\<rparr>"
      by (auto simp: go_step_def split: if_splits)
    ultimately show ?thesis by simp
  next
    case (GEnd li)
    with step j show ?thesis by (simp add: go_step_def)
  qed
qed


lemma sizes_differ: "Original \<noteq> Thumbnail"
  by (simp add: Original_def Thumbnail_def)

lemma sl_links_merge:
  "mset (sl_links (merge_link li x)) = mset (sl_links x) + mset (filter valid_size [li])"
proof -
  have li: "li = \<lparr>LinkSize = LinkSize li, Link = Link li\<rparr>" by simp
  consider "LinkSize li = Original" | "LinkSize li = Thumbnail"
    | "LinkSize li \<noteq> Original" "LinkSize li \<noteq> Thumbnail" by blast
  then show ?thesis
  proof cases
    case 1
    then have "\<lparr>LinkSize = Original, Link = Link li\<rparr> = li" by (cases li) simp
    with 1 show ?thesis
      using sizes_differ by (simp add: merge_link_def sl_links_def valid_size_def)
  next
    case 2
    then have "\<lparr>LinkSize = Thumbnail, Link = Link li\<rparr> = li" by (cases li) simp
    with 2 show ?thesis
      using sizes_differ by (simp add: merge_link_def sl_links_def valid_size_def)
  next
    case 3
    then show ?thesis by (simp add: merge_link_def sl_links_def valid_size_def)
  qed
qed

lemma link_sent_le: "length (concat (map link_sent gs)) \<le> length gs"
proof (induction gs)
  case Nil
  then show ?case by simp
next
  case (Cons g gs)
  have "length (link_sent g) \<le> 1" by (simp add: link_sent_def split: gstate.splits)
  with Cons show ?case by simp
qed

lemma all_ended:
  assumes "list_all2 task_rel ts gs"
    and "length (concat (map link_sent gs)) = length gs"
  shows "map snd ts = map (\<lambda>li. Some (Inr li)) (concat (map link_sent gs))"
  using assms
proof (induction rule: list_all2_induct)
  case Nil
  then show ?case by simp
next
  case (Cons t ts g gs)
  have g1: "length (link_sent g) \<le> 1" by (simp add: link_sent_def split: gstate.splits)
  have "length (concat (map link_sent gs)) \<le> length gs" by (rule link_sent_le)
  with g1 Cons.prems have l: "length (link_sent g) = 1"
    and r: "length (concat (map link_sent gs)) = length gs"
    by simp_all
  from l obtain li where g: "g = GEnd li"
    by (cases g) (simp_all add: link_sent_def)
  with Cons.hyps(1) have "snd t = Some (Inr li)" by (simp add: task_rel_def)
  with g Cons.IH [OF r] show ?case by (simp add: link_sent_def)
qed

lemma returned_ok_final:
  assumes inv: "Inv ex objs s" and pc: "pc s = MRecvErr k" and k: "\<not> k < length objs"
  shows "returned_ok ex objs (sl s) (json_Marshal ex (sl s))"
proof -
  let ?n = "length objs"
  let ?L = "concat (map link_sent (gos s))"
  from inv pc have kn: "k \<le> ?n" and cnt: "counts s k k" by (simp_all add: Inv_def)
  with k have k_eq: "k = ?n" by simp
  from inv have len: "length (gos s) \<le> ?n"
    and l2: "list_all2 task_rel (take (length (gos s)) (tasks ex objs)) (gos s)"
    by (simp_all add: Inv_def)
  from cnt k_eq have "length ?L = ?n + length (linkChan s)" by (simp add: counts_def)
  moreover have "length ?L \<le> length (gos s)" by (rule link_sent_le)
  ultimately have full: "length (gos s) = ?n" and L: "length ?L = length (gos s)"
    and "length (linkChan s) \<le> 0"
    using len by arith+
  then have empty: "linkChan s = []" by simp
  from l2 full have "list_all2 task_rel (tasks ex objs) (gos s)"
    by (simp add: length_tasks)
  from all_ended [OF this L] have out: "outcomes ex objs = map (\<lambda>li. Some (Inr li)) ?L"
    by (simp add: map_snd_tasks)
  have a: "all_succeed ex objs"
    by (simp add: all_succeed_def out list_all_iff)
  have "expected_links ex objs = concat (map (\<lambda>li. [li]) ?L)"
    by (simp add: expected_links_def out comp_def)
  then have e: "expected_links ex objs = ?L" by simp
  from cnt empty have "mset (sl_links (sl s)) = mset (filter valid_size ?L)"
    by (simp add: counts_def)
  with a e show ?thesis by (simp add: returned_ok_def)
qed

lemma caller_step_Inv:
  assumes inv: "Inv ex objs s" and step: "caller_step ex (length objs) s = Some s'"
  shows "Inv ex objs s'"
proof -
  from inv have len: "length (gos s) \<le> length objs"
    and l2: "list_all2 task_rel (take (length (gos s)) (tasks ex objs)) (gos s)"
    and errs: "\<forall>err. Some err \<in> set (errChan s) \<longrightarrow> err \<in> set (task_errors ex objs)"
    by (simp_all add: Inv_def)
  show ?thesis
  proof (cases "pc s")
    case (MRange rest)
    with inv have rest: "rest = drop (length (gos s)) objs" and cnt: "counts s 0 0"
      by (simp_all add: Inv_def)
    show ?thesis
    proof (cases "rest = [] \<or> quit s")
      case True
      with MRange step have s': "s' = s\<lparr>pc := MRecvErr 0\<rparr>"
        by (auto simp: caller_step_def split: list.splits)
      from cnt have "counts (s\<lparr>pc := MRecvErr 0\<rparr>) 0 0" by (simp add: counts_def)
      with len l2 errs show ?thesis by (simp add: s' Inv_def)
    next
      case False
      then obtain obj rest' where r: "rest = obj # rest'" by (cases rest) auto
      with False MRange step
      have s': "s' = s\<lparr>gos := gos s @ [GStart obj], pc := MRange rest'\<rparr>"
        by (auto simp: caller_step_def)
      from r rest have lt: "length (gos s) < length objs"
        by (cases "length (gos s) < length objs") simp_all
      from r rest lt have obj: "obj = objs ! length (gos s)" and rest': "rest' = drop (Suc (length (gos s))) objs"
        by (simp_all add: Cons_nth_drop_Suc [symmetric])
      have "task_rel (tasks ex objs ! length (gos s)) (GStart obj)"
        using lt obj by (simp add: task_rel_def tasks_nth)
      with l2 lt have "list_all2 task_rel (take (Suc (length (gos s))) (tasks ex objs)) (gos s @ [GStart obj])"
        by (simp add: take_Suc_conv_app_nth length_tasks list_all2_appendI)
      moreover from cnt have "counts s' 0 0"
        by (simp add: s' counts_def nil_sent_def link_sent_def)
      ultimately show ?thesis
        using lt errs rest' by (simp add: s' Inv_def)
    qed
  next
    case (MRecvErr k)
    with inv have kn: "k \<le> length objs" and cnt: "counts s k k" by (simp_all add: Inv_def)
    show ?thesis
    proof (cases "k < length objs")
      case False
      with MRecvErr step have s': "s' = s\<lparr>pc := MReturned (sl s) (json_Marshal ex (sl s))\<rparr>"
        by (simp add: caller_step_def)
      from returned_ok_final [OF inv MRecvErr False] len l2 errs show ?thesis
        by (simp add: s' Inv_def)
    next
      case True
      with MRecvErr step obtain m buf where buf: "errChan s = m # buf"
        by (cases "errChan s") (auto simp: caller_step_def)
      show ?thesis
      proof (cases m)
        case None
        with True MRecvErr step buf have s': "s' = s\<lparr>errChan := buf, pc := MRecvLink k\<rparr>"
          by (simp add: caller_step_def)
        from cnt buf None have "counts s' (Suc k) k"
          by (simp add: s' counts_def nils_in_def)
        with len l2 errs buf True show ?thesis by (simp add: s' Inv_def)
      next
        case (Some err)
        with True MRecvErr step buf have s': "s' = s\<lparr>errChan := buf, pc := MCloseQuit err\<rparr>"
          by (simp add: caller_step_def)
        from errs buf Some have "err \<in> set (task_errors ex objs)" by simp
        with len l2 errs buf show ?thesis by (simp add: s' Inv_def)
      qed
    qed
  next
    case (MCloseQuit err)
    with inv have e: "err \<in> set (task_errors ex objs)" by (simp add: Inv_def)
    from MCloseQuit step
    have "s' = s\<lparr>panic := Some ''close of closed channel''\<rparr> \<or>
          s' = s\<lparr>quit := True, pc := MReturned (sl s) (Some err)\<rparr>"
      by (auto simp: caller_step_def split: if_splits)
    then show ?thesis
    proof
      assume "s' = s\<lparr>panic := Some ''close of closed channel''\<rparr>"
      with inv show ?thesis by simp
    next
      assume s': "s' = s\<lparr>quit := True, pc := MReturned (sl s) (Some err)\<rparr>"
      from len l2 errs e show ?thesis by (simp add: s' Inv_def)
    qed
  next
    case (MRecvLink k)
    with inv have kn: "k < length objs" and cnt: "counts s (Suc k) k" by (simp_all add: Inv_def)
    from MRecvLink step obtain li buf where buf: "linkChan s = li # buf"
      by (cases "linkChan s") (auto simp: caller_step_def)
    with MRecvLink step
    have s': "s' = s\<lparr>linkChan := buf, sl := merge_link li (sl s), pc := MRecvErr (Suc k)\<rparr>"
      by (simp add: caller_step_def)
    from cnt buf have "counts s' (Suc k) (Suc k)"
      by (cases "valid_size li") (simp_all add: s' counts_def sl_links_merge)
    with len l2 errs kn show ?thesis by (simp add: s' Inv_def)
  next
    case (MReturned x r)
    with step show ?thesis by (simp add: caller_step_def)
  qed
qed

lemma Inv_init: "Inv ex objs (init objs)"
  by (simp add: Inv_def init_def counts_def nils_in_def sl_links_def)

lemma step_Inv:
  assumes "Inv ex objs s" and "step ex (length objs) t s = Some s'"
  shows "Inv ex objs s'"
proof (cases t)
  case Caller
  with assms(2) have "caller_step ex (length objs) s = Some s'"
    by (simp add: step_def split: if_splits)
  with assms(1) show ?thesis by (rule caller_step_Inv)
next
  case (Go j)
  with assms(2) have "go_step ex j s = Some s'"
    by (simp add: step_def split: if_splits)
  with assms(1) show ?thesis by (rule go_step_Inv)
qed

lemma run_Inv: "Inv ex objs s \<Longrightarrow> Inv ex objs (run ex (length objs) sched s)"
proof (induction sched arbitrary: s)
  case Nil
  then show ?case by simp
next
  case (Cons t sched)
  show ?case
  proof (cases "step ex (length objs) t s")
    case None
    with Cons show ?thesis by simp
  next
    case (Some s')
    with Cons.prems have "Inv ex objs s'" by (rule step_Inv)
    with Some Cons.IH show ?thesis by simp
  qed
qed

lemma uploadMultiple_Inv: "Inv ex objs (uploadMultiple ex objs sched)"
  unfolding uploadMultiple_def by (rule run_Inv [OF Inv_init])

lemma run_append: "run ex n (xs @ ys) s = run ex n ys (run ex n xs s)"
  by (induction xs arbitrary: s) (auto split: option.splits)


lemma all_succeed_no_errors: "all_succeed ex objs \<Longrightarrow> task_errors ex objs = []"
  by (induction "outcomes ex objs")
    (auto simp: all_succeed_def task_errors_def list_all_iff split: option.splits sum.splits)


lemma Inv_returned:
  assumes "Inv ex objs s" and "pc s = MReturned x r"
  shows "sl s = x"
    and "returned_ok ex objs x r \<or> (\<exists>err. r = Some err \<and> err \<in> set (task_errors ex objs))"
  using assms by (simp_all add: Inv_def)

subsection \<open>Evaluating executions on the concrete inputs\<close>

lemma Upload_example:
  "Upload example_externals j file name =
     (if name = ''bad'' then Inl (Error ''copy failed'')
      else Inr (ObjectLink \<lparr>Bucket = ''bk'', AttrsName = name\<rparr>))"
  by (simp add: Upload_def example_externals_def)

lemma ObjectLink_examples:
  "ObjectLink \<lparr>Bucket = ''bk'', AttrsName = ''o1''\<rparr> = ''https://storage.googleapis.com/bk/o1''"
  "ObjectLink \<lparr>Bucket = ''bk'', AttrsName = ''t1''\<rparr> = ''https://storage.googleapis.com/bk/t1''"
  by code_simp+

lemma json_Marshal_example: "json_Marshal example_externals x = None"
  by (simp add: example_externals_def)

lemmas run_eval = json_Marshal_example
  uploadMultiple_def init_def step_def caller_step_def go_step_def merge_link_def
  Upload_example ObjectLink_examples example_original_def example_thumbnail_def example_bad_def
  Original_def Thumbnail_def

lemmas outcome_eval =
  outcomes_def task_outcome_def some_fails_def all_succeed_def task_errors_def
  expected_links_def sizes_ok_def links_of_def
  Upload_example ObjectLink_examples example_original_def example_thumbnail_def example_bad_def
  Original_def Thumbnail_def

subsection \<open>Batches with a failing upload\<close>




text \<open>
  C2 fails: \<^verbatim>\<open>quit\<close> is closed by the failing goroutine (line 264) and again by the collector
  when it receives the error (line 281), with nothing to make the second close a no-op.
  For a batch of one failing task, in the first execution the goroutine closes first and
  the collector panics before it returns; in the second the collector closes first and
  returns, and the goroutine panics.
\<close>

theorem double_close_panics:
  "panic (uploadMultiple example_externals [example_bad]
            [Caller, Go 0, Go 0, Go 0, Caller, Caller, Caller]) =
     Some ''close of closed channel'' \<and>
   pc (uploadMultiple example_externals [example_bad]
            [Caller, Go 0, Go 0, Go 0, Caller, Caller, Caller]) =
     MCloseQuit (Error ''copy failed'') \<and>
   panic (uploadMultiple example_externals [example_bad]
            [Caller, Go 0, Go 0, Caller, Caller, Caller, Go 0]) =
     Some ''close of closed channel'' \<and>
   gos (uploadMultiple example_externals [example_bad]
            [Caller, Go 0, Go 0, Caller, Caller, Caller, Go 0]) =
     [GCloseQuit (Error ''copy failed'')]"
  by (simp add: run_eval)

lemma step_after_error:
  assumes "pc s = MCloseQuit err \<or> pc s = MReturned x (Some err)"
    and "step ex n t s = Some s'"
  shows "sl s' = sl s \<and> (pc s' = MCloseQuit err \<or> pc s' = MReturned x (Some err) \<or>
           (pc s = MCloseQuit err \<and> pc s' = MReturned (sl s) (Some err)))"
proof (cases t)
  case Caller
  with assms show ?thesis
    by (auto simp: step_def caller_step_def split: if_splits)
next
  case (Go j)
  with assms(2) have "sl s' = sl s \<and> pc s' = pc s"
    by (auto simp: step_def go_step_def split: if_splits gstate.splits option.splits)
  with assms(1) show ?thesis by auto
qed

lemma run_after_error:
  assumes "pc s = MCloseQuit err \<or> pc s = MReturned (sl s) (Some err)"
  shows "sl (run ex n sched s) = sl s \<and>
         (pc (run ex n sched s) = MCloseQuit err \<or>
          pc (run ex n sched s) = MReturned (sl s) (Some err))"
  using assms
proof (induction sched arbitrary: s)
  case Nil
  then show ?case by simp
next
  case (Cons t sched)
  show ?case
  proof (cases "step ex n t s")
    case None
    with Cons show ?thesis by simp
  next
    case (Some s')
    from step_after_error [OF Cons.prems Some]
    have sl: "sl s' = sl s"
      and pc: "pc s' = MCloseQuit err \<or> pc s' = MReturned (sl s') (Some err)"
      by auto
    from Cons.IH [OF pc] sl Some show ?thesis by simp
  qed
qed

text \<open>
  C6. Once the collector has received an error (it is before \<^verbatim>\<open>close(quit)\<close> of line 281),
  whatever the threads do afterwards, the result \<^verbatim>\<open>sl\<close> stays what it was at that moment,
  and if the call returns, it returns that \<^verbatim>\<open>sl\<close> and that error.
\<close>

theorem no_merge_after_error:
  assumes "pc (uploadMultiple ex objs sched) = MCloseQuit err"
  shows "sl (uploadMultiple ex objs (sched @ sched')) = sl (uploadMultiple ex objs sched) \<and>
         (pc (uploadMultiple ex objs (sched @ sched')) = MCloseQuit err \<or>
          pc (uploadMultiple ex objs (sched @ sched')) =
            MReturned (sl (uploadMultiple ex objs sched)) (Some err))"
proof -
  let ?s = "uploadMultiple ex objs sched"
  have "uploadMultiple ex objs (sched @ sched') = run ex (length objs) sched' ?s"
    by (simp add: uploadMultiple_def run_append)
  moreover from assms have "pc ?s = MCloseQuit err \<or> pc ?s = MReturned (sl ?s) (Some err)"
    by simp
  ultimately show ?thesis
    using run_after_error [of ?s err ex "length objs" sched'] by simp
qed

theorem no_merge_after_error_witness:
  "pc (uploadMultiple example_externals [example_bad, example_original]
        [Caller, Caller, Caller, Go 0, Go 0, Caller]) = MCloseQuit (Error ''copy failed'') \<and>
   gos (uploadMultiple example_externals [example_bad, example_original]
        ([Caller, Caller, Caller, Go 0, Go 0, Caller] @ [Go 1, Go 1, Go 1, Caller])) =
     [GCloseQuit (Error ''copy failed''),
      GEnd \<lparr>LinkSize = Original, Link = ''https://storage.googleapis.com/bk/o1''\<rparr>] \<and>
   sl (uploadMultiple example_externals [example_bad, example_original]
        ([Caller, Caller, Caller, Go 0, Go 0, Caller] @ [Go 1, Go 1, Go 1, Caller])) =
     \<lparr>Thumbnails = [], Originals = []\<rparr> \<and>
   pc (uploadMultiple example_externals [example_bad, example_original]
        ([Caller, Caller, Caller, Go 0, Go 0, Caller] @ [Go 1, Go 1, Go 1, Caller])) =
     MReturned \<lparr>Thumbnails = [], Originals = []\<rparr> (Some (Error ''copy failed''))"
proof -
  let ?objs = "[example_bad, example_original]"
  let ?sched = "[Caller, Caller, Caller, Go 0, Go 0, Caller]"
  let ?sched' = "[Go 1, Go 1, Go 1, Caller]"
  have h: "pc (uploadMultiple example_externals ?objs ?sched) = MCloseQuit (Error ''copy failed'')"
    by (simp add: run_eval)
  have s0: "sl (uploadMultiple example_externals ?objs ?sched) = \<lparr>Thumbnails = [], Originals = []\<rparr>"
    by (simp add: run_eval)
  have g: "gos (uploadMultiple example_externals ?objs (?sched @ ?sched')) =
     [GCloseQuit (Error ''copy failed''),
      GEnd \<lparr>LinkSize = Original, Link = ''https://storage.googleapis.com/bk/o1''\<rparr>]"
    by (simp add: run_eval)
  have p: "pc (uploadMultiple example_externals ?objs (?sched @ ?sched')) \<noteq>
      MCloseQuit (Error ''copy failed'')"
    by (simp add: run_eval)
  from no_merge_after_error [OF h, of ?sched'] s0 p h g show ?thesis by simp
qed

subsection \<open>Batches in which every upload succeeds\<close>

lemma all_succeed_outcome:
  assumes "all_succeed ex objs" and "j < length objs"
  shows "\<exists>li. outcomes ex objs ! j = Some (Inr li)"
proof -
  from assms(2) have "outcomes ex objs ! j \<in> set (outcomes ex objs)"
    by (simp add: length_outcomes)
  with assms(1) have "case outcomes ex objs ! j of Some (Inr li) \<Rightarrow> True | _ \<Rightarrow> False"
    by (simp add: all_succeed_def list_all_iff)
  then show ?thesis
    by (cases "outcomes ex objs ! j") (auto split: sum.splits)
qed

lemma go_state_ok:
  assumes inv: "Inv ex objs s" and ok: "all_succeed ex objs" and j: "j < length (gos s)"
  shows "(\<exists>a. gos s ! j = GStart (Some a)) \<or> (\<exists>li. gos s ! j = GSendNil li) \<or>
         (\<exists>li. gos s ! j = GSendLink li) \<or> (\<exists>li. gos s ! j = GEnd li)"
proof -
  note rel = Inv_task_rel [OF inv j]
  from all_succeed_outcome [OF ok rel(2)] obtain li
    where li: "outcomes ex objs ! j = Some (Inr li)" by blast
  with rel(2) have t: "snd (tasks ex objs ! j) = Some (Inr li)"
    "task_outcome ex j (objs ! j) = Some (Inr li)"
    by (simp_all add: tasks_nth outcomes_nth)
  from t(2) obtain a where a: "objs ! j = Some a"
    by (cases "objs ! j") (simp_all add: task_outcome_def)
  with rel(2) have f: "fst (tasks ex objs ! j) = Some a" by (simp add: tasks_nth)
  from rel(1) t(1) f show ?thesis
    by (cases "gos s ! j") (simp_all add: task_rel_def)
qed

lemma go_step_Inv_ok:
  assumes inv: "Inv ex objs s" and ok: "all_succeed ex objs" and iok: "Inv_ok objs s"
    and step: "go_step ex j s = Some s'"
  shows "Inv_ok objs s'"
proof -
  from step have j: "j < length (gos s)"
    by (simp add: go_step_def split: if_splits)
  from go_state_ok [OF inv ok j] step j
  have "quit s' = quit s \<and> panic s' = panic s \<and> pc s' = pc s \<and> length (gos s') = length (gos s)"
    by (auto simp: go_step_def split: if_splits)
  with iok show ?thesis by (cases "pc s") (simp_all add: Inv_ok_def)
qed

lemma caller_step_Inv_ok:
  assumes inv: "Inv ex objs s" and ok: "all_succeed ex objs" and iok: "Inv_ok objs s"
    and step: "caller_step ex (length objs) s = Some s'"
  shows "Inv_ok objs s'"
proof (cases "pc s")
  case (MRange rest)
  with inv have rest: "rest = drop (length (gos s)) objs" and len: "length (gos s) \<le> length objs"
    by (simp_all add: Inv_def)
  show ?thesis
  proof (cases rest)
    case Nil
    with rest len have "length (gos s) = length objs" by simp
    with Nil MRange step iok show ?thesis
      by (auto simp: caller_step_def Inv_ok_def)
  next
    case (Cons obj rest')
    with MRange step iok show ?thesis
      by (auto simp: caller_step_def Inv_ok_def)
  qed
next
  case (MRecvErr k)
  from inv have errs: "\<forall>err. Some err \<in> set (errChan s) \<longrightarrow> err \<in> set (task_errors ex objs)"
    by (simp add: Inv_def)
  with ok have "\<forall>err. Some err \<notin> set (errChan s)"
    by (simp add: all_succeed_no_errors)
  with MRecvErr step iok show ?thesis
    by (auto simp: caller_step_def Inv_ok_def split: if_splits list.splits option.splits)
next
  case (MCloseQuit err)
  with inv have "err \<in> set (task_errors ex objs)" by (simp add: Inv_def)
  with ok show ?thesis by (simp add: all_succeed_no_errors)
next
  case (MRecvLink k)
  with step iok show ?thesis
    by (auto simp: caller_step_def Inv_ok_def split: list.splits)
next
  case (MReturned x r)
  with step show ?thesis by (simp add: caller_step_def)
qed

lemma step_Inv_ok:
  assumes "Inv ex objs s" and "all_succeed ex objs" and "Inv_ok objs s"
    and "step ex (length objs) t s = Some s'"
  shows "Inv_ok objs s'"
proof (cases t)
  case Caller
  with assms(4) have "caller_step ex (length objs) s = Some s'"
    by (simp add: step_def split: if_splits)
  with assms(1-3) show ?thesis by (rule caller_step_Inv_ok)
next
  case (Go j)
  with assms(4) have "go_step ex j s = Some s'"
    by (simp add: step_def split: if_splits)
  with assms(1-3) show ?thesis by (rule go_step_Inv_ok)
qed

lemma run_Inv_ok:
  assumes "all_succeed ex objs"
  shows "Inv ex objs s \<Longrightarrow> Inv_ok objs s \<Longrightarrow> Inv_ok objs (run ex (length objs) sched s)"
proof (induction sched arbitrary: s)
  case Nil
  then show ?case by simp
next
  case (Cons t sched)
  show ?case
  proof (cases "step ex (length objs) t s")
    case None
    with Cons show ?thesis by simp
  next
    case (Some s')
    from Cons.prems(1) Some have i: "Inv ex objs s'" by (rule step_Inv)
    from Cons.prems(1) assms Cons.prems(2) Some have "Inv_ok objs s'" by (rule step_Inv_ok)
    with i Some Cons.IH show ?thesis by simp
  qed
qed

lemma Inv_ok_init: "Inv_ok objs (init objs)"
  by (simp add: Inv_ok_def init_def)

lemma uploadMultiple_Inv_ok:
  "all_succeed ex objs \<Longrightarrow> Inv_ok objs (uploadMultiple ex objs sched)"
  unfolding uploadMultiple_def by (rule run_Inv_ok [OF _ Inv_init Inv_ok_init])


lemma sum_list_update_less:
  assumes "j < length xs" and "f y < f (xs ! j)"
  shows "sum_list (map f (xs[j := y])) < (sum_list (map f xs) :: nat)"
  using assms
proof (induction xs arbitrary: j)
  case Nil
  then show ?case by simp
next
  case (Cons x xs)
  then show ?case by (cases j) simp_all
qed

lemma go_step_decreases:
  assumes "go_step ex j s = Some s'" and "panic s = None"
  shows "steps_left n s' < steps_left n s"
proof -
  from assms(1) have j: "j < length (gos s)"
    by (simp add: go_step_def split: if_splits)
  have upd: "sum_list (map go_left ((gos s)[j := g'])) < sum_list (map go_left (gos s))"
    if "go_left g' < go_left (gos s ! j)" for g'
    using j that by (rule sum_list_update_less)
  show ?thesis
  proof (cases "panic s' = None")
    case False
    with assms(2) show ?thesis by (auto simp: steps_left_def)
  next
    case True
    show ?thesis
    proof (cases "gos s ! j")
      case (GStart obj)
      with assms j True obtain a where a: "obj = Some a" by (cases obj) (auto simp: go_step_def)
      let ?g' = "case Upload ex j (Reader a) (Name a) of
              Inl err \<Rightarrow> GSendErr err
            | Inr objectLink \<Rightarrow> GSendNil \<lparr>LinkSize = Size a, Link = objectLink\<rparr>"
      have "go_left ?g' < go_left (gos s ! j)"
        using GStart by (simp add: go_left_def split: sum.splits)
      from upd [OF this] GStart a assms j show ?thesis
        by (auto simp: go_step_def steps_left_def)
    next
      case (GSendErr err)
      have "go_left (GCloseQuit err) < go_left (gos s ! j)"
        using GSendErr by (simp add: go_left_def)
      from upd [OF this] GSendErr assms j show ?thesis
        by (auto simp: go_step_def steps_left_def split: if_splits)
    next
      case (GCloseQuit err)
      have "go_left (GReturn err) < go_left (gos s ! j)"
        using GCloseQuit by (simp add: go_left_def)
      from upd [OF this] GCloseQuit assms j show ?thesis
        by (auto simp: go_step_def steps_left_def split: if_splits)
    next
      case (GReturn err)
      with assms j show ?thesis by (simp add: go_step_def)
    next
      case (GSendNil li)
      have "go_left (GSendLink li) < go_left (gos s ! j)"
        using GSendNil by (simp add: go_left_def)
      from upd [OF this] GSendNil assms j show ?thesis
        by (auto simp: go_step_def steps_left_def split: if_splits)
    next
      case (GSendLink li)
      have "go_left (GEnd li) < go_left (gos s ! j)"
        using GSendLink by (simp add: go_left_def)
      from upd [OF this] GSendLink assms j show ?thesis
        by (auto simp: go_step_def steps_left_def split: if_splits)
    next
      case (GEnd li)
      with assms j show ?thesis by (simp add: go_step_def)
    qed
  qed
qed

lemma caller_step_decreases:
  assumes "caller_step ex n s = Some s'" and "panic s = None"
    and "\<And>k. pc s = MRecvLink k \<Longrightarrow> k < n"
  shows "steps_left n s' < steps_left n s"
proof (cases "pc s")
  case (MRange rest)
  with assms(1,2) show ?thesis
    by (cases rest) (auto simp: caller_step_def steps_left_def caller_left_def go_left_def
        split: if_splits)
next
  case (MRecvErr k)
  with assms(1,2) show ?thesis
    by (auto simp: caller_step_def steps_left_def caller_left_def
        split: if_splits list.splits option.splits)
next
  case (MCloseQuit err)
  with assms(1,2) show ?thesis
    by (auto simp: caller_step_def steps_left_def caller_left_def split: if_splits)
next
  case (MRecvLink k)
  with assms(3) have "k < n" by simp
  with MRecvLink assms(1,2) show ?thesis
    by (auto simp: caller_step_def steps_left_def caller_left_def split: list.splits)
next
  case (MReturned x r)
  with assms(1) show ?thesis by (simp add: caller_step_def)
qed

lemma step_decreases:
  assumes "Inv ex objs s" and "step ex (length objs) t s = Some s'"
  shows "steps_left (length objs) s' < steps_left (length objs) s"
proof -
  from assms(2) have p: "panic s = None" by (simp add: step_def split: if_splits)
  show ?thesis
  proof (cases t)
    case Caller
    with assms(2) have c: "caller_step ex (length objs) s = Some s'"
      by (simp add: step_def split: if_splits)
    have "k < length objs" if "pc s = MRecvLink k" for k
      using assms(1) that by (simp add: Inv_def)
    with c p show ?thesis by (rule caller_step_decreases)
  next
    case (Go j)
    with assms(2) have "go_step ex j s = Some s'"
      by (simp add: step_def split: if_splits)
    then show ?thesis using p by (rule go_step_decreases)
  qed
qed


lemma concat_length_mono:
  assumes "\<forall>x\<in>set xs. length (f x) \<le> length (g x)"
  shows "length (concat (map f xs)) \<le> length (concat (map g xs))"
  using assms by (induction xs) (simp_all add: add_mono)

lemma unsent_nil_exists:
  assumes "length (concat (map nil_sent gs)) < length gs"
  shows "\<exists>j<length gs. nil_sent (gs ! j) = []"
proof (rule ccontr)
  assume "\<not> ?thesis"
  then have "\<forall>j<length gs. nil_sent (gs ! j) \<noteq> []" by blast
  then have "\<forall>g\<in>set gs. nil_sent g \<noteq> []"
    by (auto simp: in_set_conv_nth)
  then have "\<forall>g\<in>set gs. length [()] \<le> length (nil_sent g)"
    by (auto simp: Suc_le_eq)
  then have "length (concat (map (\<lambda>g. [()]) gs)) \<le> length (concat (map nil_sent gs))"
    by (rule concat_length_mono)
  with assms show False by (simp add: length_concat sum_list_triv comp_def)
qed

lemma unsent_link_exists:
  assumes "length (concat (map link_sent gs)) < length (concat (map nil_sent gs))"
  shows "\<exists>j<length gs. \<exists>li. gs ! j = GSendLink li"
proof (rule ccontr)
  assume "\<not> ?thesis"
  then have "\<forall>j<length gs. \<forall>li. gs ! j \<noteq> GSendLink li" by blast
  then have "\<forall>g\<in>set gs. \<forall>li. g \<noteq> GSendLink li"
    by (auto simp: in_set_conv_nth)
  then have "\<forall>g\<in>set gs. length (nil_sent g) \<le> length (link_sent g)"
    by (auto simp: nil_sent_def link_sent_def split: gstate.splits)
  then have "length (concat (map nil_sent gs)) \<le> length (concat (map link_sent gs))"
    by (rule concat_length_mono)
  with assms show False by simp
qed

lemma progress:
  assumes inv: "Inv ex objs s" and ok: "all_succeed ex objs" and iok: "Inv_ok objs s"
    and run: "\<forall>x r. pc s \<noteq> MReturned x r"
  shows "\<exists>t s'. step ex (length objs) t s = Some s'"
proof -
  from iok have p: "panic s = None" and q: "\<not> quit s" by (simp_all add: Inv_ok_def)
  have caller: "\<exists>t s'. step ex (length objs) t s = Some s'"
    if "caller_step ex (length objs) s \<noteq> None"
    using that p by (intro exI [of _ Caller]) (auto simp: step_def)
  have go: "\<exists>t s'. step ex (length objs) t s = Some s'"
    if "go_step ex j s \<noteq> None" for j
    using that p by (intro exI [of _ "Go j"]) (auto simp: step_def)
  show ?thesis
  proof (cases "pc s")
    case (MRange rest)
    with q have "caller_step ex (length objs) s \<noteq> None"
      by (cases rest) (simp_all add: caller_step_def)
    then show ?thesis by (rule caller)
  next
    case (MRecvErr k)
    with inv have cnt: "counts s k k" by (simp add: Inv_def)
    from MRecvErr iok have full: "length (gos s) = length objs" by (simp add: Inv_ok_def)
    show ?thesis
    proof (cases "k < length objs \<and> errChan s = []")
      case False
      with MRecvErr have "caller_step ex (length objs) s \<noteq> None"
        by (auto simp: caller_step_def split: list.splits option.splits)
      then show ?thesis by (rule caller)
    next
      case True
      with cnt full have "length (concat (map nil_sent (gos s))) < length (gos s)"
        by (simp add: counts_def nils_in_def)
      from unsent_nil_exists [OF this] obtain j
        where j: "j < length (gos s)" and n: "nil_sent (gos s ! j) = []" by blast
      from go_state_ok [OF inv ok j] n
      have "(\<exists>a. gos s ! j = GStart (Some a)) \<or> (\<exists>li. gos s ! j = GSendNil li)"
        by (auto simp: nil_sent_def)
      with j True have "go_step ex j s \<noteq> None"
        by (auto simp: go_step_def)
      then show ?thesis by (rule go)
    qed
  next
    case (MCloseQuit err)
    with inv have "err \<in> set (task_errors ex objs)" by (simp add: Inv_def)
    with ok show ?thesis by (simp add: all_succeed_no_errors)
  next
    case (MRecvLink k)
    with inv have cnt: "counts s (Suc k) k" by (simp add: Inv_def)
    show ?thesis
    proof (cases "linkChan s")
      case (Cons li buf)
      with MRecvLink have "caller_step ex (length objs) s \<noteq> None"
        by (simp add: caller_step_def)
      then show ?thesis by (rule caller)
    next
      case Nil
      with cnt have "length (concat (map link_sent (gos s))) < length (concat (map nil_sent (gos s)))"
        by (simp add: counts_def)
      from unsent_link_exists [OF this] obtain j li
        where j: "j < length (gos s)" and g: "gos s ! j = GSendLink li" by blast
      with Nil have "go_step ex j s \<noteq> None"
        by (simp add: go_step_def)
      then show ?thesis by (rule go)
    qed
  next
    case (MReturned x r)
    with run show ?thesis by simp
  qed
qed

lemma eventually_returns:
  assumes ok: "all_succeed ex objs"
  shows "Inv ex objs s \<Longrightarrow> Inv_ok objs s \<Longrightarrow>
         \<exists>sched x r. pc (run ex (length objs) sched s) = MReturned x r"
proof (induction "steps_left (length objs) s" arbitrary: s rule: less_induct)
  case less
  show ?case
  proof (cases "\<exists>x r. pc s = MReturned x r")
    case True
    then obtain x r where "pc (run ex (length objs) [] s) = MReturned x r" by auto
    then show ?thesis by blast
  next
    case False
    then have "\<forall>x r. pc s \<noteq> MReturned x r" by blast
    from progress [OF less.prems(1) ok less.prems(2) this] obtain t s'
      where st: "step ex (length objs) t s = Some s'" by blast
    from less.prems(1) st have d: "steps_left (length objs) s' < steps_left (length objs) s"
      by (rule step_decreases)
    from less.prems(1) st have i: "Inv ex objs s'" by (rule step_Inv)
    from less.prems(1) ok less.prems(2) st have i2: "Inv_ok objs s'" by (rule step_Inv_ok)
    from less.hyps [OF d i i2] obtain sched x r
      where "pc (run ex (length objs) sched s') = MReturned x r" by blast
    with st have "pc (run ex (length objs) (t # sched) s) = MReturned x r" by simp
    then show ?thesis by blast
  qed
qed


lemma expected_links_valid:
  assumes "sizes_ok objs" and "li \<in> set (expected_links ex objs)"
  shows "valid_size li"
proof -
  from assms(2) have "Some (Inr li) \<in> set (outcomes ex objs)"
    by (auto simp: expected_links_def split: option.splits sum.splits)
  then obtain j where j: "j < length objs" and o: "outcomes ex objs ! j = Some (Inr li)"
    by (auto simp: in_set_conv_nth length_outcomes)
  then have t: "task_outcome ex j (objs ! j) = Some (Inr li)" by (simp add: outcomes_nth)
  then obtain a where a: "objs ! j = Some a"
    by (cases "objs ! j") (simp_all add: task_outcome_def)
  from j have "objs ! j \<in> set objs" by simp
  with assms(1) a have "Size a = Original \<or> Size a = Thumbnail"
    by (auto simp: sizes_ok_def list_all_iff)
  moreover from t a have "LinkSize li = Size a"
    by (auto simp: task_outcome_def split: sum.splits)
  ultimately show ?thesis by (simp add: valid_size_def)
qed

lemma length_expected_links:
  assumes "all_succeed ex objs"
  shows "length (expected_links ex objs) = length objs"
proof -
  have "list_all (\<lambda>r. case r of Some (Inr li) \<Rightarrow> True | _ \<Rightarrow> False) rs \<Longrightarrow>
        length (concat (map (\<lambda>r. case r of Some (Inr li) \<Rightarrow> [li] | _ \<Rightarrow> []) rs)) = length rs"
    for rs :: "(error + LinkInfo) option list"
    by (induction rs) (auto split: option.splits sum.splits)
  from this [of "outcomes ex objs"] assms show ?thesis
    by (simp add: all_succeed_def expected_links_def length_outcomes)
qed

lemma links_of_sl_links:
  "links_of Original (sl_links x) = Originals x"
  "links_of Thumbnail (sl_links x) = Thumbnails x"
  using sizes_differ
  by (auto simp: links_of_def sl_links_def filter_map comp_def)

lemma mset_links_of:
  "mset xs = mset ys \<Longrightarrow> mset (links_of z xs) = mset (links_of z ys)"
proof -
  assume eq: "mset xs = mset ys"
  have "mset (links_of z l) = image_mset Link (filter_mset (\<lambda>li. LinkSize li = z) (mset l))" for l
    by (simp add: links_of_def)
  with eq show ?thesis by simp
qed

lemma steps_left_init: "steps_left (length objs) (init objs) = 6 * length objs + 4"
  by (simp add: steps_left_def init_def caller_left_def)

lemma length_sl_links: "length (sl_links x) = length (Originals x) + length (Thumbnails x)"
  by (simp add: sl_links_def)

text \<open>
  C5. When every task of the batch is non-nil, tagged with one of the two sizes, and its
  upload succeeds: no execution panics; from every state an execution reaches, the call
  can still return, and a state in which no thread can step is one in which it has
  returned (every step lowers \<open>steps_left\<close>, so an execution that keeps stepping returns);
  and whenever it has returned, the two partitions together hold one
  link per task, the originals are exactly the links of the tasks tagged \<open>Original\<close> and the
  thumbnails exactly those of the tasks tagged \<open>Thumbnail\<close> (as multisets: the order is
  the order of collection), and the error returned is the outcome of \<^verbatim>\<open>json.Marshal\<close>.
\<close>

theorem all_succeed_partition:
  assumes "all_succeed ex objs" and "sizes_ok objs"
  shows "panic (uploadMultiple ex objs sched) = None \<and>
         (\<exists>sched' x r. pc (uploadMultiple ex objs (sched @ sched')) = MReturned x r) \<and>
         ((\<forall>t. step ex (length objs) t (uploadMultiple ex objs sched) = None) \<longrightarrow>
          (\<exists>x r. pc (uploadMultiple ex objs sched) = MReturned x r)) \<and>
         (\<forall>x r. pc (uploadMultiple ex objs sched) = MReturned x r \<longrightarrow>
            length (Originals x) + length (Thumbnails x) = length objs \<and>
            mset (Originals x) = mset (links_of Original (expected_links ex objs)) \<and>
            mset (Thumbnails x) = mset (links_of Thumbnail (expected_links ex objs)) \<and>
            r = json_Marshal ex x)"
proof -
  let ?s = "uploadMultiple ex objs sched"
  have inv: "Inv ex objs ?s" by (rule uploadMultiple_Inv)
  have iok: "Inv_ok objs ?s" using assms(1) by (rule uploadMultiple_Inv_ok)
  from iok have a: "panic ?s = None" by (simp add: Inv_ok_def)
  from eventually_returns [OF assms(1) inv iok] obtain sched' x r
    where "pc (run ex (length objs) sched' ?s) = MReturned x r" by blast
  then have "pc (uploadMultiple ex objs (sched @ sched')) = MReturned x r"
    by (simp add: uploadMultiple_def run_append)
  then have b: "\<exists>sched' x r. pc (uploadMultiple ex objs (sched @ sched')) = MReturned x r"
    by blast
  have c: "length (Originals x) + length (Thumbnails x) = length objs \<and>
            mset (Originals x) = mset (links_of Original (expected_links ex objs)) \<and>
            mset (Thumbnails x) = mset (links_of Thumbnail (expected_links ex objs)) \<and>
            r = json_Marshal ex x"
    if ret: "pc ?s = MReturned x r" for x r
  proof -
    from Inv_returned(2) [OF inv ret] assms(1)
    have "returned_ok ex objs x r" by (auto simp: all_succeed_no_errors)
    then have m: "mset (sl_links x) = mset (filter valid_size (expected_links ex objs))"
      and r: "r = json_Marshal ex x"
      by (simp_all add: returned_ok_def)
    have "filter valid_size (expected_links ex objs) = expected_links ex objs"
      using expected_links_valid [OF assms(2)] by (simp add: filter_id_conv)
    with m have eq: "mset (sl_links x) = mset (expected_links ex objs)" by simp
    from eq have "length (sl_links x) = length (expected_links ex objs)"
      by (rule mset_eq_length)
    then have l: "length (Originals x) + length (Thumbnails x) = length objs"
      by (simp add: length_sl_links length_expected_links [OF assms(1)])
    from mset_links_of [OF eq, of Original] mset_links_of [OF eq, of Thumbnail]
    have "mset (Originals x) = mset (links_of Original (expected_links ex objs))"
      "mset (Thumbnails x) = mset (links_of Thumbnail (expected_links ex objs))"
      by (simp_all add: links_of_sl_links)
    with l r show ?thesis by simp
  qed
  have d: "\<exists>x r. pc ?s = MReturned x r" if "\<forall>t. step ex (length objs) t ?s = None"
  proof (rule ccontr)
    assume "\<not> ?thesis"
    then have "\<forall>x r. pc ?s \<noteq> MReturned x r" by blast
    from progress [OF inv assms(1) iok this] that show False by auto
  qed
  from a b c d show ?thesis by blast
qed

theorem all_succeed_partition_witness:
  "all_succeed example_externals [example_original, example_thumbnail] \<and>
   sizes_ok [example_original, example_thumbnail] \<and>
   panic (uploadMultiple example_externals [example_original, example_thumbnail]
        [Caller, Caller, Caller, Go 1, Go 1, Caller, Go 1, Caller, Go 0, Go 0, Caller, Go 0,
         Caller, Caller]) = None \<and>
   pc (uploadMultiple example_externals [example_original, example_thumbnail]
        [Caller, Caller, Caller, Go 1, Go 1, Caller, Go 1, Caller, Go 0, Go 0, Caller, Go 0,
         Caller, Caller]) =
     MReturned \<lparr>Thumbnails = [''https://storage.googleapis.com/bk/t1''],
                Originals = [''https://storage.googleapis.com/bk/o1'']\<rparr> None \<and>
   length [''https://storage.googleapis.com/bk/o1''] +
     length [''https://storage.googleapis.com/bk/t1''] =
     length [example_original, example_thumbnail] \<and>
   mset [''https://storage.googleapis.com/bk/o1''] =
     mset (links_of Original
       (expected_links example_externals [example_original, example_thumbnail])) \<and>
   mset [''https://storage.googleapis.com/bk/t1''] =
     mset (links_of Thumbnail
       (expected_links example_externals [example_original, example_thumbnail]))"
proof -
  let ?objs = "[example_original, example_thumbnail]"
  let ?sched = "[Caller, Caller, Caller, Go 1, Go 1, Caller, Go 1, Caller, Go 0, Go 0, Caller, Go 0,
         Caller, Caller]"
  let ?x = "\<lparr>Thumbnails = [''https://storage.googleapis.com/bk/t1''],
                Originals = [''https://storage.googleapis.com/bk/o1'']\<rparr>"
  have h1: "all_succeed example_externals ?objs" by (simp add: outcome_eval)
  have h2: "sizes_ok ?objs" by (simp add: outcome_eval)
  have h3: "pc (uploadMultiple example_externals ?objs ?sched) = MReturned ?x None"
    by (simp add: run_eval)
  from all_succeed_partition [OF h1 h2, of ?sched] h3
  have "panic (uploadMultiple example_externals ?objs ?sched) = None"
    and "length (Originals ?x) + length (Thumbnails ?x) = length ?objs \<and>
         mset (Originals ?x) = mset (links_of Original (expected_links example_externals ?objs)) \<and>
         mset (Thumbnails ?x) = mset (links_of Thumbnail (expected_links example_externals ?objs))"
    by blast+
  with h1 h2 h3 show ?thesis by simp
qed

subsection \<open>The closes of the quit channel\<close>

lemma closes_gos_update:
  assumes "closes s b" and "j < length (gos s)"
    and "err_sent g' = err_sent (gos s ! j)" and "quit_closed g' = quit_closed (gos s ! j)"
  shows "closes (s\<lparr>gos := (gos s)[j := g']\<rparr>) b"
proof -
  have "mset (concat (map err_sent ((gos s)[j := g']))) = mset (concat (map err_sent (gos s)))"
    using concat_map_update [OF assms(2), of err_sent g'] assms(3) by simp
  then have e: "length (concat (map err_sent ((gos s)[j := g']))) =
      length (concat (map err_sent (gos s)))"
    by (rule mset_eq_length)
  have "mset (concat (map quit_closed ((gos s)[j := g']))) = mset (concat (map quit_closed (gos s)))"
    using concat_map_update [OF assms(2), of quit_closed g'] assms(4) by simp
  then have "length (concat (map quit_closed ((gos s)[j := g']))) =
      length (concat (map quit_closed (gos s)))"
    by (rule mset_eq_length)
  then have q: "length (concat (map quit_closed ((gos s)[j := g']))) =
      length (concat (map quit_closed (gos s)))"
    and "(concat (map quit_closed ((gos s)[j := g'])) = []) = (concat (map quit_closed (gos s)) = [])"
    by (simp_all only: length_0_conv [symmetric])
  with e assms(1) show ?thesis by (simp add: closes_def)
qed

lemma go_step_Inv_close:
  assumes ic: "Inv_close ex objs s" and step: "go_step ex j s = Some s'"
  shows "Inv_close ex objs s'"
proof (cases "panic s' = None")
  case False
  then show ?thesis by (simp add: Inv_close_def)
next
  case True
  from step have j: "j < length (gos s)"
    by (simp add: go_step_def split: if_splits)
  from step True j have p: "panic s = None"
    by (auto simp: go_step_def split: if_splits gstate.splits option.splits)
  note upd_e = concat_map_update_length [OF j, of err_sent]
  note upd_q = concat_map_update_length [OF j, of quit_closed]
  have same: "Inv_close ex objs (s\<lparr>gos := (gos s)[j := g']\<rparr>)"
    if "err_sent g' = err_sent (gos s ! j)" "quit_closed g' = quit_closed (gos s ! j)" for g'
  proof -
    have c: "closes (s\<lparr>gos := (gos s)[j := g']\<rparr>) b" if "closes s b" for b
      using that j \<open>err_sent g' = err_sent (gos s ! j)\<close> \<open>quit_closed g' = quit_closed (gos s ! j)\<close>
      by (rule closes_gos_update)
    from c [of 0] c [of 1] have c': "closes (s\<lparr>gos := (gos s)[j := g']\<rparr>) b" if "closes s b" "b = 0 \<or> b = 1" for b
      using that by auto
    show ?thesis
    proof (cases "pc s")
      case (MReturned x r)
      with ic p upd_e [of g'] upd_q [of g'] that show ?thesis
        by (auto simp: Inv_close_def length_0_conv [symmetric] simp del: length_0_conv)
    qed (use ic p c in \<open>auto simp: Inv_close_def\<close>)
  qed
  show ?thesis
  proof (cases "gos s ! j")
    case (GStart obj)
    with step j True obtain a where a: "obj = Some a" by (cases obj) (auto simp: go_step_def)
    let ?g' = "case Upload ex j (Reader a) (Name a) of
              Inl err \<Rightarrow> GSendErr err
            | Inr objectLink \<Rightarrow> GSendNil \<lparr>LinkSize = Size a, Link = objectLink\<rparr>"
    have "Inv_close ex objs (s\<lparr>gos := (gos s)[j := ?g']\<rparr>)"
      using GStart by (intro same) (simp_all add: err_sent_def quit_closed_def split: sum.splits)
    moreover from GStart a step j
    have "s' = (s\<lparr>gos := (gos s)[j := ?g']\<rparr>)\<lparr>uploads := uploads s @ [Name a]\<rparr>"
      by (auto simp: go_step_def)
    ultimately show ?thesis
      by (cases "pc s") (simp_all add: Inv_close_def closes_def)
  next
    case (GSendErr err)
    from GSendErr step j
    have s': "s' = s\<lparr>errChan := errChan s @ [Some err], gos := (gos s)[j := GCloseQuit err]\<rparr>"
      by (auto simp: go_step_def split: if_splits)
    have e: "length (concat (map err_sent ((gos s)[j := GCloseQuit err]))) =
        Suc (length (concat (map err_sent (gos s))))"
      using upd_e [of "GCloseQuit err"] GSendErr by (simp add: err_sent_def)
    have q: "length (concat (map quit_closed ((gos s)[j := GCloseQuit err]))) =
        length (concat (map quit_closed (gos s)))"
      using upd_q [of "GCloseQuit err"] GSendErr by (simp add: quit_closed_def)
    then have q0: "(concat (map quit_closed ((gos s)[j := GCloseQuit err])) = []) =
        (concat (map quit_closed (gos s)) = [])"
      by (simp only: length_0_conv [symmetric])
    from ic p e q q0 show ?thesis
      by (cases "pc s") (auto simp: s' Inv_close_def closes_def errs_in_def)
  next
    case (GCloseQuit err)
    from GCloseQuit step j True
    have nq: "\<not> quit s" and s': "s' = s\<lparr>quit := True, gos := (gos s)[j := GReturn err]\<rparr>"
      by (auto simp: go_step_def split: if_splits)
    have e: "length (concat (map err_sent ((gos s)[j := GReturn err]))) =
        length (concat (map err_sent (gos s)))"
      using upd_e [of "GReturn err"] GCloseQuit by (simp add: err_sent_def)
    have q: "length (concat (map quit_closed ((gos s)[j := GReturn err]))) =
        Suc (length (concat (map quit_closed (gos s))))"
      using upd_q [of "GReturn err"] GCloseQuit by (simp add: quit_closed_def)
    then have q0: "concat (map quit_closed ((gos s)[j := GReturn err])) \<noteq> []"
      by (auto simp del: concat_eq_Nil_conv)
    from ic p nq e q q0 show ?thesis
      by (cases "pc s") (auto simp: s' Inv_close_def closes_def)
  next
    case (GReturn err)
    with step j show ?thesis by (simp add: go_step_def)
  next
    case (GSendNil li)
    from GSendNil step j
    have s': "s' = (s\<lparr>gos := (gos s)[j := GSendLink li]\<rparr>)\<lparr>errChan := errChan s @ [None]\<rparr>"
      by (auto simp: go_step_def split: if_splits)
    have "Inv_close ex objs (s\<lparr>gos := (gos s)[j := GSendLink li]\<rparr>)"
      using GSendNil by (intro same) (simp_all add: err_sent_def quit_closed_def)
    then show ?thesis
      by (cases "pc s") (simp_all add: s' Inv_close_def closes_def errs_in_def)
  next
    case (GSendLink li)
    from GSendLink step j
    have s': "s' = (s\<lparr>gos := (gos s)[j := GEnd li]\<rparr>)\<lparr>linkChan := linkChan s @ [li]\<rparr>"
      by (auto simp: go_step_def split: if_splits)
    have "Inv_close ex objs (s\<lparr>gos := (gos s)[j := GEnd li]\<rparr>)"
      using GSendLink by (intro same) (simp_all add: err_sent_def quit_closed_def)
    then show ?thesis
      by (cases "pc s") (simp_all add: s' Inv_close_def closes_def)
  next
    case (GEnd li)
    with step j show ?thesis by (simp add: go_step_def)
  qed
qed


lemma caller_step_Inv_close:
  assumes inv: "Inv ex objs s" and ic: "Inv_close ex objs s"
    and step: "caller_step ex (length objs) s = Some s'"
  shows "Inv_close ex objs s'"
proof (cases "panic s' = None")
  case False
  then show ?thesis by (simp add: Inv_close_def)
next
  case True
  with step have p: "panic s = None"
    by (auto simp: caller_step_def split: mstate.splits list.splits option.splits if_splits)
  show ?thesis
  proof (cases "pc s")
    case (MRange rest)
    with ic p have c: "closes s 0" by (simp add: Inv_close_def)
    show ?thesis
    proof (cases "rest = [] \<or> quit s")
      case True
      with MRange step have s': "s' = s\<lparr>pc := MRecvErr 0\<rparr>"
        by (auto simp: caller_step_def split: list.splits)
      from c show ?thesis by (simp add: s' Inv_close_def closes_def)
    next
      case False
      then obtain obj rest' where r: "rest = obj # rest'" by (cases rest) auto
      with False MRange step
      have s': "s' = s\<lparr>gos := gos s @ [GStart obj], pc := MRange rest'\<rparr>"
        by (auto simp: caller_step_def)
      from c show ?thesis
        by (simp add: s' Inv_close_def closes_def err_sent_def quit_closed_def)
    qed
  next
    case (MRecvErr k)
    with ic p have c: "closes s 0" by (simp add: Inv_close_def)
    show ?thesis
    proof (cases "k < length objs")
      case False
      with MRecvErr step have s': "s' = s\<lparr>pc := MReturned (sl s) (json_Marshal ex (sl s))\<rparr>"
        by (simp add: caller_step_def)
      from returned_ok_final [OF inv MRecvErr False] show ?thesis
        by (simp add: s' Inv_close_def)
    next
      case True
      with MRecvErr step obtain m buf where buf: "errChan s = m # buf"
        by (cases "errChan s") (auto simp: caller_step_def)
      show ?thesis
      proof (cases m)
        case None
        with True MRecvErr step buf have s': "s' = s\<lparr>errChan := buf, pc := MRecvLink k\<rparr>"
          by (simp add: caller_step_def)
        from c buf None show ?thesis
          by (simp add: s' Inv_close_def closes_def errs_in_def)
      next
        case (Some err)
        with True MRecvErr step buf have s': "s' = s\<lparr>errChan := buf, pc := MCloseQuit err\<rparr>"
          by (simp add: caller_step_def)
        from c buf Some show ?thesis
          by (simp add: s' Inv_close_def closes_def errs_in_def)
      qed
    qed
  next
    case (MCloseQuit err)
    with ic p have c: "closes s 1" by (simp add: Inv_close_def)
    from MCloseQuit step True
    have nq: "\<not> quit s" and s': "s' = s\<lparr>quit := True, pc := MReturned (sl s) (Some err)\<rparr>"
      by (auto simp: caller_step_def split: if_splits)
    from c nq show ?thesis
      by (simp add: s' Inv_close_def closes_def)
  next
    case (MRecvLink k)
    with ic p have c: "closes s 0" by (simp add: Inv_close_def)
    from MRecvLink step obtain li buf where buf: "linkChan s = li # buf"
      by (cases "linkChan s") (auto simp: caller_step_def)
    with MRecvLink step
    have s': "s' = s\<lparr>linkChan := buf, sl := merge_link li (sl s), pc := MRecvErr (Suc k)\<rparr>"
      by (simp add: caller_step_def)
    from c show ?thesis by (simp add: s' Inv_close_def closes_def)
  next
    case (MReturned x r)
    with step show ?thesis by (simp add: caller_step_def)
  qed
qed

lemma step_Inv_close:
  assumes "Inv ex objs s" and "Inv_close ex objs s" and "step ex (length objs) t s = Some s'"
  shows "Inv_close ex objs s'"
proof (cases t)
  case Caller
  with assms(3) have "caller_step ex (length objs) s = Some s'"
    by (simp add: step_def split: if_splits)
  with assms(1,2) show ?thesis by (rule caller_step_Inv_close)
next
  case (Go j)
  with assms(3) have "go_step ex j s = Some s'"
    by (simp add: step_def split: if_splits)
  with assms(2) show ?thesis by (rule go_step_Inv_close)
qed

lemma run_Inv_close:
  "Inv ex objs s \<Longrightarrow> Inv_close ex objs s \<Longrightarrow> Inv_close ex objs (run ex (length objs) sched s)"
proof (induction sched arbitrary: s)
  case Nil
  then show ?case by simp
next
  case (Cons t sched)
  show ?case
  proof (cases "step ex (length objs) t s")
    case None
    with Cons show ?thesis by simp
  next
    case (Some s')
    from Cons.prems(1) Some have i: "Inv ex objs s'" by (rule step_Inv)
    from Cons.prems Some have "Inv_close ex objs s'" by (rule step_Inv_close)
    with i Some Cons.IH show ?thesis by simp
  qed
qed

lemma uploadMultiple_Inv_close: "Inv_close ex objs (uploadMultiple ex objs sched)"
proof -
  have "Inv_close ex objs (init objs)"
    by (simp add: Inv_close_def init_def closes_def errs_in_def)
  with Inv_init show ?thesis
    unfolding uploadMultiple_def by (rule run_Inv_close)
qed

lemma nonempty_concat_nth:
  assumes "concat (map f gs) \<noteq> []"
  shows "\<exists>j<length gs. f (gs ! j) \<noteq> []"
proof -
  from assms obtain g where "g \<in> set gs" "f g \<noteq> []" by auto
  then show ?thesis by (auto simp: in_set_conv_nth)
qed

lemma Inv_close_returned:
  assumes "Inv_close ex objs s" and "\<not> all_succeed ex objs"
    and "pc s = MReturned x r" and "panic s = None"
  shows "\<exists>j. go_step ex j s = Some (s\<lparr>panic := Some ''close of closed channel''\<rparr>)"
proof -
  from assms(2) have "\<not> returned_ok ex objs x r" by (simp add: returned_ok_def)
  with assms(1,3,4)
  have e: "length (concat (map err_sent (gos s))) = Suc (length (errs_in (errChan s)))"
    and q: "quit s" and c: "concat (map quit_closed (gos s)) = []"
    by (simp_all add: Inv_close_def)
  from e have "concat (map err_sent (gos s)) \<noteq> []"
    by (auto simp del: concat_eq_Nil_conv)
  from nonempty_concat_nth [OF this] obtain j
    where j: "j < length (gos s)" and n: "err_sent (gos s ! j) \<noteq> []" by blast
  from j have "gos s ! j \<in> set (gos s)" by (rule nth_mem)
  with c have "quit_closed (gos s ! j) = []" by simp
  with n obtain err where "gos s ! j = GCloseQuit err"
    by (cases "gos s ! j") (simp_all add: err_sent_def quit_closed_def)
  with j q have "go_step ex j s = Some (s\<lparr>panic := Some ''close of closed channel''\<rparr>)"
    by (simp add: go_step_def)
  then show ?thesis by (rule exI [of _ j])
qed

lemma Inv_close_collector:
  assumes "Inv_close ex objs s" and "pc s = MCloseQuit err" and "panic s = None"
    and "j < length (gos s)" and "gos s ! j = GReturn err'"
  shows "caller_step ex n s = Some (s\<lparr>panic := Some ''close of closed channel''\<rparr>)"
proof -
  from assms(5) have "quit_closed (gos s ! j) \<noteq> []"
    by (simp add: quit_closed_def)
  moreover from assms(4) have "gos s ! j \<in> set (gos s)"
    by (rule nth_mem)
  ultimately have "concat (map quit_closed (gos s)) \<noteq> []" by auto
  with assms(1,2,3) have "quit s"
    by (simp add: Inv_close_def closes_def)
  with assms(2) show ?thesis by (simp add: caller_step_def)
qed

text \<open>
  The second close of \<^verbatim>\<open>quit\<close> cannot be avoided. In every execution of a batch that is
  not all successes: once the call has returned without a panic, \<^verbatim>\<open>quit\<close> is closed and the
  goroutine that reported the error is still before its \<^verbatim>\<open>close(quit)\<close>, so its next step
  panics.
\<close>

lemma returned_goroutine_panics:
  assumes "\<not> all_succeed ex objs"
    and "s = uploadMultiple ex objs sched"
    and "pc s = MReturned x r" and "panic s = None"
  shows "\<exists>j. step ex (length objs) (Go j) s = Some (s\<lparr>panic := Some ''close of closed channel''\<rparr>)"
proof -
  have "Inv_close ex objs s" unfolding assms(2) by (rule uploadMultiple_Inv_close)
  from Inv_close_returned [OF this assms(1,3,4)] obtain j
    where "go_step ex j s = Some (s\<lparr>panic := Some ''close of closed channel''\<rparr>)"
    by blast
  with assms(4) have "step ex (length objs) (Go j) s =
      Some (s\<lparr>panic := Some ''close of closed channel''\<rparr>)"
    by (simp add: step_def)
  then show ?thesis by (rule exI [of _ j])
qed

text \<open>
  In the other order: when the collector has received the error and the goroutine that
  reported it has already closed \<^verbatim>\<open>quit\<close> and returned, the collector's next step panics.
\<close>

lemma collector_close_panics:
  assumes "s = uploadMultiple ex objs sched"
    and "pc s = MCloseQuit err" and "panic s = None"
    and "j < length (gos s)" and "gos s ! j = GReturn err'"
  shows "step ex (length objs) Caller s = Some (s\<lparr>panic := Some ''close of closed channel''\<rparr>)"
proof -
  have "Inv_close ex objs s" unfolding assms(1) by (rule uploadMultiple_Inv_close)
  from Inv_close_collector [OF this assms(2-5)] assms(3) show ?thesis
    by (simp add: step_def)
qed

end
